theory Spec2Isabelle
  imports Complex_Main "HOL-Library.Multiset"
begin

unbundle bit_operations_syntax

section \<open>Numbers and host operations\<close>

text \<open>
  A JavaScript number is modelled as an exact rational (\<open>rat\<close>) where the code does
  arithmetic on ticks and pixels, and as an integer (\<open>int\<close>) where it holds a pitch, a
  velocity, a channel or a byte. \<open>NaN\<close> and the infinities have no counterpart; where
  the source would produce one, the text of the definition says what is done instead.
\<close>

definition toInt32 :: "int \<Rightarrow> int" where
  \<comment> \<open>ECMAScript ToInt32, which every bitwise operator applies to its operands.\<close>
  "toInt32 v = signed_take_bit 31 v"

definition Math_round :: "rat \<Rightarrow> int" where
  "Math_round x = \<lfloor>x + 1 / 2\<rfloor>"

definition js_or0 :: "int \<Rightarrow> int" where
  \<comment> \<open>\<open>c || 0\<close> on a number \<open>c\<close>: the falsy number is 0 itself.\<close>
  "js_or0 c = (if c = 0 then 0 else c)"

text \<open>
  \<open>Array.prototype.sort\<close> with a comparator. Every conforming engine returns the stable
  sorted permutation when the comparator is a consistent ordering; for any other
  comparator the language leaves the order to the engine. The model is the insertion
  sort that takes the elements from left to right and moves each one leftwards past the
  elements that compare greater (\<open>cmp y x > 0\<close>). The first argument of \<open>insert_by\<close> is
  the sorted prefix, last element first.
\<close>

fun insert_by :: "('a \<Rightarrow> 'a \<Rightarrow> rat) \<Rightarrow> 'a \<Rightarrow> 'a list \<Rightarrow> 'a list" where
  "insert_by cmp x [] = [x]"
| "insert_by cmp x (y # ys) = (if cmp y x > 0 then y # insert_by cmp x ys else x # y # ys)"

definition array_sort :: "('a \<Rightarrow> 'a \<Rightarrow> rat) \<Rightarrow> 'a list \<Rightarrow> 'a list" where
  "array_sort cmp xs = rev (foldl (\<lambda>acc x. insert_by cmp x acc) [] xs)"

section \<open>MIDI file writer: variable-length quantities\<close>

text \<open>
  \<open>writeVlq\<close> of \<open>saveToMidi\<close> (PianoRoll.js). \<open>value & 0x7F\<close> and \<open>value >>= 7\<close> work on
  \<open>ToInt32(value)\<close>; after the first shift the value is a 32-bit integer already, so
  the loop applies the operators directly. \<open>>>\<close> is the sign-propagating shift, which
  on \<open>int\<close> is \<open>drop_bit\<close>.
\<close>

function vlq_loop :: "int \<Rightarrow> int list \<Rightarrow> int list" where
  "vlq_loop v bytes =
     (if v > 0 then vlq_loop (drop_bit 7 v) (bytes @ [(v AND 0x7F) OR 0x80]) else bytes)"
  by pat_completeness auto
termination
proof (relation "measure (\<lambda>(v, bytes). nat v)")
  show "wf (measure (\<lambda>(v, bytes). nat v))" by simp
next
  fix v :: int and bytes :: "int list"
  assume "0 < v"
  then have "v div 128 < v" by simp
  then show "((drop_bit 7 v, bytes @ [(v AND 0x7F) OR 0x80]), (v, bytes))
      \<in> measure (\<lambda>(v, bytes). nat v)"
    using \<open>0 < v\<close> by (simp add: drop_bit_eq_div)
qed

definition writeVlq :: "int \<Rightarrow> int list" where
  "writeVlq v0 =
     (let bytes = [toInt32 v0 AND 0x7F];
          v = drop_bit 7 (toInt32 v0)
      in rev (vlq_loop v bytes))"

text \<open>
  Modelled from the spec: the decoder of a variable-length quantity. The repository
  hands import to the synthesiser's \<open>loadMIDI\<close> and has no decoder of its own; the spec
  says "decoding reverses this, accumulating 7-bit groups until a byte with high bit
  clear". The result is the value and the bytes left over; input that ends before a
  byte with the high bit clear has no value.
\<close>

fun decodeVlq_from :: "int \<Rightarrow> int list \<Rightarrow> (int \<times> int list) option" where
  "decodeVlq_from acc [] = None"
| "decodeVlq_from acc (b # bs) =
     (if b AND 0x80 = 0 then Some (acc * 128 + (b AND 0x7F), bs)
      else decodeVlq_from (acc * 128 + (b AND 0x7F)) bs)"

definition decodeVlq :: "int list \<Rightarrow> (int \<times> int list) option" where
  "decodeVlq bs = decodeVlq_from 0 bs"

text \<open>
  The 7-bit groups of a positive number, most significant first (none for 0): the
  digits the spec's "most-significant-first" encoding is made of.
\<close>

function groups128 :: "int \<Rightarrow> int list" where
  "groups128 v = (if v > 0 then groups128 (v div 128) @ [v mod 128] else [])"
  by pat_completeness auto
termination
  by (relation "measure nat") auto

section \<open>Timeline records and the message-list codec\<close>

text \<open>
  The \<open>notes\<close> array holds note records and, with \<open>type: 'other'\<close>, the non-note events.
  A note has \<open>originalDuration\<close> once a resize gesture has started on it. An \<open>other\<close>
  record made by \<open>_setTrackParameter\<close> also has \<open>eventType\<close> and \<open>channel\<close>.
\<close>

datatype event_type = programChange | volumeChange

datatype entry =
    Note (pitch: int) (velocity: int) (channel: int) (start_tick: rat) (duration_ticks: rat)
         (originalDuration: "rat option")
  | Other (time: rat) (msg: "int list") (eventType: "event_type option")
          (other_channel: "int option")

datatype message =
    noteOn (on_pitch: int) (on_velocity: int) (on_time: rat) (on_channel: int)
  | noteOff (off_pitch: int) (off_velocity: int) (off_time: rat) (off_channel: int)
  | other (other_time: rat) (other_msg: "int list")

fun msg_time :: "message \<Rightarrow> rat" where
  "msg_time (noteOn p v t c) = t"
| "msg_time (noteOff p v t c) = t"
| "msg_time (other t m) = t"

fun notes_messages :: "entry \<Rightarrow> message list" where
  \<comment> \<open>the body of the \<open>forEach\<close> of \<open>_notesToMessages\<close>: what one record pushes\<close>
  "notes_messages (Other t m et oc) = [other t m]"
| "notes_messages (Note p v c st d od) =
     [noteOn p v st (js_or0 c), noteOff p 0 (st + d) (js_or0 c)]"

definition export_cmp :: "message \<Rightarrow> message \<Rightarrow> rat" where
  \<comment> \<open>the comparator of \<open>_notesToMessages\<close>\<close>
  "export_cmp a b =
     (if msg_time a < msg_time b then -1
      else if msg_time a > msg_time b then 1
      else (case (a, b) of
              (noteOff _ _ _ _, noteOn _ _ _ _) \<Rightarrow> -1
            | (noteOn _ _ _ _, noteOff _ _ _ _) \<Rightarrow> 1
            | _ \<Rightarrow> 0))"

definition notesToMessages :: "entry list \<Rightarrow> message list" where
  "notesToMessages ns = array_sort export_cmp (concat (map notes_messages ns))"

text \<open>
  \<open>_messagesToNotes\<close>. \<open>openNotes\<close> is keyed by the string \<open>pitch_channel\<close>; two numbers
  written in decimal and joined by an underscore determine both numbers, so the key is
  modelled as the pair. The state of the loop is the array built so far and the map.
\<close>

definition time_cmp :: "message \<Rightarrow> message \<Rightarrow> rat" where
  "time_cmp a b = msg_time a - msg_time b"

fun pair_step :: "entry list \<times> (int \<times> int \<rightharpoonup> message) \<Rightarrow> message
    \<Rightarrow> entry list \<times> (int \<times> int \<rightharpoonup> message)" where
  "pair_step (notes, openNotes) (noteOn p v t c) =
     (if v > 0 then (notes, openNotes((p, c) \<mapsto> noteOn p v t c))
      else if v = 0 then
        (case openNotes (p, c) of
           Some nOn \<Rightarrow> (notes @ [Note (on_pitch nOn) (on_velocity nOn) (on_channel nOn)
                                   (on_time nOn) (t - on_time nOn) None],
                        openNotes((p, c) := None))
         | None \<Rightarrow> (notes, openNotes))
      else (notes, openNotes))"
| "pair_step (notes, openNotes) (noteOff p v t c) =
     (case openNotes (p, c) of
        Some nOn \<Rightarrow> (notes @ [Note (on_pitch nOn) (on_velocity nOn) (on_channel nOn)
                                (on_time nOn) (t - on_time nOn) None],
                     openNotes((p, c) := None))
      | None \<Rightarrow> (notes, openNotes))"
| "pair_step (notes, openNotes) (other t m) = (notes @ [Other t m None None], openNotes)"

definition messagesToNotes :: "message list \<Rightarrow> entry list" where
  "messagesToNotes messages =
     fst (foldl pair_step ([], Map.empty) (array_sort time_cmp messages))"

text \<open>
  Vocabulary for statements about the codec: the two messages a note is exported as,
  the key under which \<open>_messagesToNotes\<close> pairs them, and the note without the
  \<open>originalDuration\<close> that a resize gesture leaves on it (import makes notes of the
  five fields \<open>pitch\<close>, \<open>velocity\<close>, \<open>channel\<close>, \<open>start_tick\<close>, \<open>duration_ticks\<close>).
\<close>

fun on_of :: "entry \<Rightarrow> message" where
  "on_of (Note p v c st d od) = noteOn p v st c"
| "on_of (Other t m et oc) = other t m"

fun off_of :: "entry \<Rightarrow> message" where
  "off_of (Note p v c st d od) = noteOff p 0 (st + d) c"
| "off_of (Other t m et oc) = other t m"

fun key_of :: "entry \<Rightarrow> int \<times> int" where
  "key_of (Note p v c st d od) = (p, c)"
| "key_of (Other t m et oc) = (0, 0)"

fun five_fields :: "entry \<Rightarrow> entry" where
  "five_fields (Note p v c st d od) = Note p v c st d None"
| "five_fields (Other t m et oc) = Other t m et oc"

definition on_before_off :: "rat \<Rightarrow> message \<Rightarrow> message \<Rightarrow> bool" where
  \<comment> \<open>a \<open>noteOn\<close> and a \<open>noteOff\<close> of time \<open>t\<close>, in this order\<close>
  "on_before_off t a b = (msg_time a = t \<and> msg_time b = t \<and> is_noteOn a \<and> is_noteOff b)"

definition distinct_keys :: "entry list \<Rightarrow> bool" where
  \<comment> \<open>note records with pairwise distinct (pitch, channel) pairs\<close>
  "distinct_keys ns = (list_all is_Note ns \<and> distinct (map key_of ns))"

definition positive_durations :: "entry list \<Rightarrow> bool" where
  "positive_durations ns = list_all (\<lambda>e. 0 < duration_ticks e) ns"

definition positive_velocities :: "entry list \<Rightarrow> bool" where
  "positive_velocities ns = list_all (\<lambda>e. 0 < velocity e) ns"

section \<open>The piano roll: state\<close>

text \<open>
  The \<open>state\<close> object of \<open>PianoRoll\<close>, with the fields of the component itself that the
  operations read or write (\<open>bpm\<close>, \<open>config.totalBeats\<close>, the size of the canvas and the
  height of the drawer).

  Object identity. \<open>selectedNotes\<close> and \<open>dragOffsets\<close> hold references to the records
  of \<open>notes\<close>, and gestures write through them. Every record of \<open>notes\<close> is therefore
  paired with an object identity (a number), a reference is that number, and
  \<open>nextId\<close> is the next unused one. A snapshot of the undo history is a deep copy
  (\<open>JSON.parse(JSON.stringify(...))\<close>): it holds the records without identities, and
  restoring one makes new objects.

  Effects. The calls to the MIDI sink (\<open>onPlayNote\<close>, \<open>onStopNote\<close>, \<open>onMidiMessage\<close>) are
  appended to \<open>emitted\<close>. Drawing and timers have no counterpart: the \<open>onStopNote\<close> that a
  \<open>setTimeout\<close> of a preview sound makes later is not in the model.
\<close>

datatype edit_mode = mode_add | mode_select | mode_pan

datatype lookahead =
    LnoteOn (on_tick: rat) (lpitch: int) (lvelocity: int) (lchannel: int) (isPlayingFlag: bool)
  | LnoteOff (off_tick: rat) (off_lpitch: int) (off_lchannel: int)
  | Lother (other_tick: rat) (lmsg: "int list")

datatype sink_call =
    onPlayNote_event lookahead
  | onStopNote_event lookahead
  | onMidiMessage "int list"
  | onPlayNote int int int
  | onStopNote int "int option"

record state =
  "notes" :: "(nat \<times> entry) list"
  nextId :: nat
  ppqn :: rat
  noteSize :: rat
  selectedNotes :: "nat list"
  mode :: edit_mode
  currentChannel :: int
  playOnClick :: bool
  scrollX :: rat
  scrollY :: rat
  songDurationTicks :: rat
  isPlaying :: bool
  playheadTick :: rat
  lastFrameTime :: rat
  lookaheadEvents :: "lookahead list"
  isDragging :: bool
  wasAddingNote :: bool
  isResizing :: bool
  isMarqueeSelecting :: bool
  isDraggingVScroll :: bool
  isDraggingHScroll :: bool
  dragStartPos :: "rat \<times> rat"
  dragStartScroll :: "rat \<times> rat"
  isPanning :: bool
  isDraggingPlayhead :: bool
  potentialDeselect :: bool
  dragOffsets :: "(nat \<times> rat \<times> rat) list"
  resizeStartTicks :: rat
  marquee :: "rat \<times> rat \<times> rat \<times> rat"
  lastMousePos :: "rat \<times> rat"
  undoHistory :: "entry list list"
  redoHistory :: "entry list list"
  soundOnAdd :: "int option"
  playheadLastDraggedTime :: rat
  mutedChannels :: "int set"
  hiddenChannels :: "int set"
  bpm :: rat
  totalBeats :: rat
  clientWidth :: rat
  clientHeight :: rat
  drawerHeight :: rat
  emitted :: "sink_call list"

definition MAX_HISTORY :: nat where "MAX_HISTORY = 25"
definition noteHeight :: rat where "noteHeight = 16"
definition beatWidth :: rat where "beatWidth = 64"
definition totalPitches :: int where "totalPitches = 128"
definition keysWidth :: rat where "keysWidth = 100"
definition scrollbarSize :: rat where "scrollbarSize = 25"
definition timelineHeight :: rat where "timelineHeight = 30"

definition initial_state :: state where
  \<comment> \<open>the constructor's \<open>state\<close>, with \<open>bpm\<close> 120 and \<open>totalBeats\<close> 128; the canvas is taken
      as 800 by 600 and the drawer as its handle (20)\<close>
  "initial_state = \<lparr>
     notes = [], nextId = 0, ppqn = 96, noteSize = 96, selectedNotes = [], mode = mode_add,
     currentChannel = 0, playOnClick = True, scrollX = 0, scrollY = 0, songDurationTicks = 0,
     isPlaying = False, playheadTick = 0, lastFrameTime = 0, lookaheadEvents = [],
     isDragging = False, wasAddingNote = False, isResizing = False,
     isMarqueeSelecting = False, isDraggingVScroll = False, isDraggingHScroll = False,
     dragStartPos = (0, 0), dragStartScroll = (0, 0), isPanning = False,
     isDraggingPlayhead = False, potentialDeselect = False, dragOffsets = [],
     resizeStartTicks = 0, marquee = (0, 0, 0, 0), lastMousePos = (0, 0),
     undoHistory = [], redoHistory = [], soundOnAdd = None, playheadLastDraggedTime = 0,
     mutedChannels = {}, hiddenChannels = {}, bpm = 120, totalBeats = 128,
     clientWidth = 800, clientHeight = 600, drawerHeight = 20, emitted = [] \<rparr>"

definition alloc :: "nat \<Rightarrow> entry list \<Rightarrow> (nat \<times> entry) list" where
  \<comment> \<open>new objects for the records of a list\<close>
  "alloc n es = zip [n ..< n + length es] es"

definition snapshot :: "state \<Rightarrow> entry list" where
  \<comment> \<open>\<open>JSON.parse(JSON.stringify(this.state.notes))\<close>\<close>
  "snapshot s = map snd (notes s)"

definition restore :: "entry list \<Rightarrow> state \<Rightarrow> state" where
  \<comment> \<open>\<open>this.state.notes = \<close> a snapshot or a decoded list: the records become new objects\<close>
  "restore es s = s\<lparr>notes := alloc (nextId s) es, nextId := nextId s + length es\<rparr>"

definition update_object :: "nat \<Rightarrow> (entry \<Rightarrow> entry) \<Rightarrow> (nat \<times> entry) list
    \<Rightarrow> (nat \<times> entry) list" where
  \<comment> \<open>a write through a reference; a reference to an object that is no longer in the
      array changes nothing that can be observed\<close>
  "update_object i f ns = map (\<lambda>(j, e). if j = i then (j, f e) else (j, e)) ns"

section \<open>The piano roll: geometry\<close>

definition tickToPixel :: "state \<Rightarrow> rat \<Rightarrow> rat" where
  "tickToPixel s t = (t / ppqn s) * beatWidth"

definition pixelToTick :: "state \<Rightarrow> rat \<Rightarrow> rat" where
  "pixelToTick s px = (px / beatWidth) * ppqn s"

definition pitchToPixel :: "int \<Rightarrow> rat" where
  "pitchToPixel p = of_int (totalPitches - 1 - p) * noteHeight"

definition getGridPos :: "state \<Rightarrow> rat \<times> rat \<Rightarrow> rat \<times> rat" where
  "getGridPos s pos = (fst pos - keysWidth + scrollX s, snd pos - timelineHeight + scrollY s)"

definition pixelToGrid :: "state \<Rightarrow> rat \<times> rat \<Rightarrow> rat \<times> int" where
  \<comment> \<open>the result is (tick, pitch)\<close>
  "pixelToGrid s pos =
     (let q = ppqn s / 4;
          t = of_int (Math_round (fst pos / tickToPixel s q)) * q;
          p = totalPitches - 1 - \<lfloor>snd pos / noteHeight\<rfloor>
      in (max 0 t, max 0 (min 127 p)))"

definition getClientHeight :: "state \<Rightarrow> rat" where
  "getClientHeight s = clientHeight s - drawerHeight s"

definition clampScroll :: "state \<Rightarrow> state" where
  "clampScroll s =
     (let maxScrollX = max 0 (beatWidth * totalBeats s - (clientWidth s - keysWidth - scrollbarSize));
          maxScrollY = max 0 (noteHeight * of_int totalPitches
                              - (getClientHeight s - timelineHeight - scrollbarSize))
      in s\<lparr>scrollX := max 0 (min (scrollX s) maxScrollX),
            scrollY := max 0 (min (scrollY s) maxScrollY)\<rparr>)"

section \<open>The piano roll: song duration and undo history\<close>

fun end_step :: "rat \<Rightarrow> nat \<times> entry \<Rightarrow> rat" where
  \<comment> \<open>the body of the \<open>forEach\<close> of \<open>_recalculateSongDuration\<close>. For an \<open>other\<close> record
      \<open>start_tick + duration_ticks\<close> is \<open>NaN\<close>, and \<open>NaN > lastTick\<close> is false.\<close>
  "end_step lastTick (i, Note p v c st d od) = (if st + d > lastTick then st + d else lastTick)"
| "end_step lastTick (i, Other t m et oc) = lastTick"

definition recalculateSongDuration :: "state \<Rightarrow> state" where
  "recalculateSongDuration s =
     (let lastTick = foldl end_step 0 (notes s)
      in s\<lparr>songDurationTicks := lastTick,
            totalBeats := of_int \<lceil>lastTick / (ppqn s * 4)\<rceil> * 4 + 32\<rparr>)"

definition saveStateForUndo :: "state \<Rightarrow> state" where
  "saveStateForUndo s =
     (let s1 = s\<lparr>redoHistory := []\<rparr>;
          s2 = s1\<lparr>undoHistory := undoHistory s1 @ [snapshot s1]\<rparr>
      in if length (undoHistory s2) > MAX_HISTORY then s2\<lparr>undoHistory := tl (undoHistory s2)\<rparr>
         else s2)"

definition undo :: "state \<Rightarrow> state" where
  "undo s =
     (if length (undoHistory s) = 0 then s
      else
        let s1 = s\<lparr>redoHistory := redoHistory s @ [snapshot s]\<rparr>;
            s2 = (restore (last (undoHistory s1)) s1)\<lparr>undoHistory := butlast (undoHistory s1)\<rparr>;
            s3 = s2\<lparr>selectedNotes := []\<rparr>
        in recalculateSongDuration s3)"

definition redo :: "state \<Rightarrow> state" where
  "redo s =
     (if length (redoHistory s) = 0 then s
      else
        let s1 = s\<lparr>undoHistory := undoHistory s @ [snapshot s]\<rparr>;
            s2 = (restore (last (redoHistory s1)) s1)\<lparr>redoHistory := butlast (redoHistory s1)\<rparr>;
            s3 = s2\<lparr>selectedNotes := []\<rparr>
        in recalculateSongDuration s3)"

definition loadFromJson :: "message list \<Rightarrow> rat \<Rightarrow> state \<Rightarrow> state" where
  "loadFromJson messages q s =
     recalculateSongDuration (restore (messagesToNotes messages) (s\<lparr>ppqn := q\<rparr>))"

text \<open>
  \<open>_deleteNotes\<close> waits for a dialog; \<open>confirmed\<close> is the answer of the confirmation
  dialog. With nothing selected it shows the error dialog and changes nothing.
\<close>

definition deleteNotes :: "bool \<Rightarrow> state \<Rightarrow> state" where
  "deleteNotes confirmed s =
     (if length (selectedNotes s) = 0 then s
      else if \<not> confirmed then s
      else
        let s1 = saveStateForUndo s;
            s2 = s1\<lparr>notes := filter (\<lambda>(i, e). i \<notin> set (selectedNotes s1)) (notes s1)\<rparr>;
            s3 = s2\<lparr>selectedNotes := [], lookaheadEvents := []\<rparr>
        in recalculateSongDuration s3)"

section \<open>The piano roll: playback\<close>

fun tick :: "lookahead \<Rightarrow> rat" where
  "tick (LnoteOn t p v c pl) = t"
| "tick (LnoteOff t p c) = t"
| "tick (Lother t m) = t"

fun look_events :: "nat \<times> entry \<Rightarrow> lookahead list" where
  \<comment> \<open>the body of the \<open>forEach\<close> of \<open>_buildLookaheadEvents\<close>\<close>
  "look_events (i, Other t m et oc) = [Lother t m]"
| "look_events (i, Note p v c st d od) = [LnoteOn st p v c False, LnoteOff (st + d) p c]"

definition tick_cmp :: "lookahead \<Rightarrow> lookahead \<Rightarrow> rat" where
  "tick_cmp a b = tick a - tick b"

definition buildLookaheadEvents :: "state \<Rightarrow> state" where
  "buildLookaheadEvents s =
     s\<lparr>lookaheadEvents := array_sort tick_cmp (concat (map look_events (notes s)))\<rparr>"

fun pause_call :: "lookahead \<Rightarrow> sink_call list" where
  \<comment> \<open>\<open>if (e.isPlaying) this.onStopNote({ pitch: e.pitch, channel: e.channel })\<close>; only a
      \<open>noteOn\<close> event has the flag\<close>
  "pause_call (LnoteOn t p v c pl) = (if pl then [onStopNote p (Some c)] else [])"
| "pause_call (LnoteOff t p c) = []"
| "pause_call (Lother t m) = []"

definition pause :: "state \<Rightarrow> state" where
  "pause s =
     (let s1 = s\<lparr>isPlaying := False\<rparr>
      in s1\<lparr>emitted := emitted s1 @ concat (map pause_call (lookaheadEvents s1))\<rparr>)"

definition stop :: "state \<Rightarrow> state" where
  "stop s = (pause s)\<lparr>playheadTick := 0\<rparr>"

definition play :: "rat \<Rightarrow> state \<Rightarrow> state" where
  \<comment> \<open>\<open>now\<close> is \<open>performance.now()\<close>\<close>
  "play now s =
     (if isPlaying s then s
      else buildLookaheadEvents (s\<lparr>isPlaying := True, lastFrameTime := now\<rparr>))"

fun update_first :: "('a \<Rightarrow> bool) \<Rightarrow> ('a \<Rightarrow> 'a) \<Rightarrow> 'a list \<Rightarrow> 'a list" where
  \<comment> \<open>\<open>const x = xs.find(P); if (x) x.field = ...\<close>\<close>
  "update_first P f [] = []"
| "update_first P f (x # xs) = (if P x then f x # xs else x # update_first P f xs)"

fun set_playing :: "bool \<Rightarrow> lookahead \<Rightarrow> lookahead" where
  "set_playing b (LnoteOn t p v c pl) = LnoteOn t p v c b"
| "set_playing b (LnoteOff t p c) = LnoteOff t p c"
| "set_playing b (Lother t m) = Lother t m"

fun is_muted :: "int set \<Rightarrow> lookahead \<Rightarrow> bool" where
  \<comment> \<open>\<open>mutedChannels.has(e.channel)\<close>; an \<open>other\<close> event has no \<open>channel\<close>\<close>
  "is_muted M (LnoteOn t p v c pl) = (c \<in> M)"
| "is_muted M (LnoteOff t p c) = (c \<in> M)"
| "is_muted M (Lother t m) = False"

fun same_on :: "rat \<Rightarrow> int \<Rightarrow> int \<Rightarrow> lookahead \<Rightarrow> bool" where
  "same_on t p c (LnoteOn t' p' v' c' pl') = (t' = t \<and> p' = p \<and> c' = c)"
| "same_on t p c (LnoteOff t' p' c') = False"
| "same_on t p c (Lother t' m') = False"

fun sounding_on :: "rat \<Rightarrow> int \<Rightarrow> int \<Rightarrow> lookahead \<Rightarrow> bool" where
  "sounding_on t p c (LnoteOn t' p' v' c' pl') = (t' < t \<and> p' = p \<and> c' = c \<and> pl')"
| "sounding_on t p c (LnoteOff t' p' c') = False"
| "sounding_on t p c (Lother t' m') = False"

fun fire :: "lookahead \<Rightarrow> lookahead list \<times> sink_call list \<Rightarrow> lookahead list \<times> sink_call list"
  where
  "fire (LnoteOn t p v c pl) (evs, calls) =
     (update_first (same_on t p c) (set_playing True) evs,
      calls @ [onPlayNote_event (LnoteOn t p v c pl)])"
| "fire (LnoteOff t p c) (evs, calls) =
     (update_first (sounding_on t p c) (set_playing False) evs,
      calls @ [onStopNote_event (LnoteOff t p c)])"
| "fire (Lother t m) (evs, calls) = (evs, calls @ [onMidiMessage m])"

definition visit :: "rat \<Rightarrow> rat \<Rightarrow> int set \<Rightarrow> nat
    \<Rightarrow> lookahead list \<times> sink_call list \<Rightarrow> lookahead list \<times> sink_call list" where
  \<comment> \<open>the callback of the \<open>forEach\<close> of \<open>_playbackLoop\<close> at index \<open>i\<close>; the array keeps its
      length, so the index is in range\<close>
  "visit lo hi M i st =
     (let e = fst st ! i
      in if tick e \<ge> lo \<and> tick e < hi then (if is_muted M e then st else fire e st)
         else st)"

definition elapsedTicks :: "state \<Rightarrow> rat \<Rightarrow> rat" where
  "elapsedTicks s timestamp =
     (let elapsedMs = timestamp - lastFrameTime s;
          ticksPerSecond = (bpm s / 60) * ppqn s
      in (elapsedMs / 1000) * ticksPerSecond)"

definition autoScroll :: "state \<Rightarrow> state" where
  "autoScroll s =
     (let playheadX = tickToPixel s (playheadTick s);
          viewWidth = clientWidth s - keysWidth - scrollbarSize
      in if playheadX > scrollX s + viewWidth * (8 / 10) \<or> playheadX < scrollX s
         then s\<lparr>scrollX := playheadX - viewWidth * (2 / 10)\<rparr> else s)"

definition fire_due :: "rat \<Rightarrow> state \<Rightarrow> lookahead list \<times> sink_call list" where
  \<comment> \<open>the \<open>forEach\<close> of \<open>_playbackLoop\<close>: the array after it and the calls it made\<close>
  "fire_due timestamp s =
     fold (visit (playheadTick s) (playheadTick s + elapsedTicks s timestamp) (mutedChannels s))
       [0 ..< length (lookaheadEvents s)] (lookaheadEvents s, [])"

definition playbackLoop :: "rat \<Rightarrow> state \<Rightarrow> state" where
  "playbackLoop timestamp s =
     (if \<not> isPlaying s then s
      else
        let newPlayheadTick = playheadTick s + elapsedTicks s timestamp;
            r = fire_due timestamp s;
            s1 = s\<lparr>lastFrameTime := timestamp, lookaheadEvents := fst r,
                   emitted := emitted s @ snd r, playheadTick := newPlayheadTick\<rparr>;
            s2 = clampScroll (autoScroll s1)
        in if playheadTick s2 > songDurationTicks s2 then stop s2 else s2)"

section \<open>The piano roll: pointer gestures\<close>

text \<open>
  The handlers that \<open>_onInteractionStart\<close> calls take the note it found as a reference.
  A gesture writes note fields through the references of the selection. The marquee
  selects every \<open>other\<close> record (the comparisons of its rectangle are against \<open>NaN\<close>), so a
  selection can hold one; the fields JavaScript then adds to that record are not
  represented, and the model leaves an \<open>other\<close> record as it is. Where a note has no
  \<open>originalDuration\<close>, \<open>_handleNoteResize\<close> would store \<open>NaN\<close>; the model leaves the note
  as it is, and \<open>_handleResizeMouseDown\<close> sets the field on the whole selection before a
  resize begins.
\<close>

definition entry_of :: "state \<Rightarrow> nat \<Rightarrow> entry option" where
  "entry_of s i = map_of (notes s) i"

fun drag_offset :: "state \<Rightarrow> rat \<times> rat \<Rightarrow> nat \<Rightarrow> (nat \<times> rat \<times> rat) list" where
  "drag_offset s pos n =
     (case entry_of s n of
        Some (Note p v c st d od) \<Rightarrow>
          [(n, fst (getGridPos s pos) - tickToPixel s st, snd (getGridPos s pos) - pitchToPixel p)]
      | _ \<Rightarrow> [])"

definition handleNoteMouseDown :: "bool \<Rightarrow> nat \<Rightarrow> rat \<times> rat \<Rightarrow> state \<Rightarrow> state" where
  \<comment> \<open>\<open>modifier\<close> is \<open>e.shiftKey || e.ctrlKey\<close>\<close>
  "handleNoteMouseDown modifier note pos s0 =
     (let s = saveStateForUndo s0;
          s1 = (if playOnClick s then
                  (case entry_of s note of
                     Some (Note p v c st d od) \<Rightarrow> s\<lparr>emitted := emitted s @ [onPlayNote p v c]\<rparr>
                   | _ \<Rightarrow> s)
                else s);
          isSelected = (note \<in> set (selectedNotes s1));
          s2 = (if modifier then
                  (if isSelected
                   then s1\<lparr>selectedNotes := filter (\<lambda>n. n \<noteq> note) (selectedNotes s1)\<rparr>
                   else s1\<lparr>selectedNotes := selectedNotes s1 @ [note]\<rparr>)
                else if isSelected then s1\<lparr>potentialDeselect := True\<rparr>
                else s1\<lparr>selectedNotes := [note]\<rparr>);
          s3 = s2\<lparr>isDragging := True\<rparr>
      in s3\<lparr>dragOffsets := concat (map (drag_offset s3 pos) (selectedNotes s3))\<rparr>)"

definition handleGridMouseDown :: "rat \<times> rat \<Rightarrow> state \<Rightarrow> state" where
  "handleGridMouseDown pos s0 =
     (let s = s0\<lparr>selectedNotes := []\<rparr>
      in if mode s = mode_add then
           let s1 = saveStateForUndo s;
               gridPos = pixelToGrid s1 (getGridPos s1 pos);
               newNote = Note (snd gridPos) 100 (currentChannel s1) (fst gridPos) (noteSize s1) None;
               s2 = s1\<lparr>notes := notes s1 @ [(nextId s1, newNote)], nextId := Suc (nextId s1)\<rparr>;
               s3 = s2\<lparr>selectedNotes := [nextId s1], wasAddingNote := True\<rparr>
           in if playOnClick s3
              then s3\<lparr>emitted := emitted s3 @ [onPlayNote (snd gridPos) 100 (currentChannel s1)],
                      soundOnAdd := Some (snd gridPos)\<rparr>
              else s3
         else if mode s = mode_select
         then s\<lparr>isMarqueeSelecting := True, marquee := (fst pos, snd pos, fst pos, snd pos)\<rparr>
         else s)"

fun move_to :: "rat \<Rightarrow> int \<Rightarrow> entry \<Rightarrow> entry" where
  "move_to t p (Note p0 v c st d od) = Note p v c t d od"
| "move_to t p (Other t0 m et oc) = Other t0 m et oc"

definition handleNoteDrag :: "rat \<times> rat \<Rightarrow> state \<Rightarrow> state" where
  "handleNoteDrag pos s =
     s\<lparr>notes := foldl (\<lambda>ns (n, offX, offY).
                   let newPos = pixelToGrid s (fst (getGridPos s pos) - offX,
                                               snd (getGridPos s pos) - offY)
                   in update_object n (move_to (fst newPos) (snd newPos)) ns)
                 (notes s) (dragOffsets s)\<rparr>"

fun set_original :: "entry \<Rightarrow> entry" where
  \<comment> \<open>\<open>n.originalDuration = n.duration_ticks\<close>\<close>
  "set_original (Note p v c st d od) = Note p v c st d (Some d)"
| "set_original (Other t m et oc) = Other t m et oc"

definition handleResizeMouseDown :: "nat \<Rightarrow> rat \<times> rat \<Rightarrow> state \<Rightarrow> state" where
  "handleResizeMouseDown note pos s0 =
     (let s = saveStateForUndo s0;
          s1 = s\<lparr>isResizing := True\<rparr>;
          s2 = (if note \<notin> set (selectedNotes s1) then s1\<lparr>selectedNotes := [note]\<rparr> else s1);
          s3 = s2\<lparr>resizeStartTicks := pixelToTick s2 (fst (getGridPos s2 pos))\<rparr>
      in s3\<lparr>notes := foldl (\<lambda>ns n. update_object n set_original ns) (notes s3)
                         (selectedNotes s3)\<rparr>)"

fun resize_to :: "rat \<Rightarrow> rat \<Rightarrow> entry \<Rightarrow> entry" where
  \<comment> \<open>\<open>n.duration_ticks = Math.max(s.ppqn / 16, n.originalDuration + deltaTicks)\<close>\<close>
  "resize_to q deltaTicks (Note p v c st d od) =
     (case od of
        Some orig \<Rightarrow> Note p v c st (max (q / 16) (orig + deltaTicks)) od
      | None \<Rightarrow> Note p v c st d od)"
| "resize_to q deltaTicks (Other t m et oc) = Other t m et oc"

definition resizeDelta :: "state \<Rightarrow> rat \<times> rat \<Rightarrow> rat" where
  \<comment> \<open>\<open>deltaTicks\<close> of \<open>_handleNoteResize\<close>\<close>
  "resizeDelta s pos = pixelToTick s (fst (getGridPos s pos)) - resizeStartTicks s"

definition handleNoteResize :: "rat \<times> rat \<Rightarrow> state \<Rightarrow> state" where
  "handleNoteResize pos s =
     s\<lparr>notes := foldl (\<lambda>ns n. update_object n (resize_to (ppqn s) (resizeDelta s pos)) ns)
                 (notes s) (selectedNotes s)\<rparr>"

definition handleMarqueeSelect :: "rat \<times> rat \<Rightarrow> state \<Rightarrow> state" where
  "handleMarqueeSelect pos s =
     (case marquee s of (x1, y1, x2, y2) \<Rightarrow> s\<lparr>marquee := (x1, y1, fst pos, snd pos)\<rparr>)"

definition handleScrollbarMouseMove :: "rat \<times> rat \<Rightarrow> state \<Rightarrow> state" where
  "handleScrollbarMouseMove pos s =
     (let contentWidth = beatWidth * totalBeats s;
          contentHeight = noteHeight * of_int totalPitches;
          s1 = (if isDraggingVScroll s then
                  let dy = snd pos - snd (dragStartPos s);
                      viewHeight = getClientHeight s - timelineHeight - scrollbarSize;
                      ratio = contentHeight / viewHeight
                  in s\<lparr>scrollY := snd (dragStartScroll s) + dy * ratio\<rparr>
                else s);
          s2 = (if isDraggingHScroll s1 then
                  let dx = fst pos - fst (dragStartPos s1);
                      viewWidth = clientWidth s1 - keysWidth - scrollbarSize;
                      ratio = contentWidth / viewWidth
                  in s1\<lparr>scrollX := fst (dragStartScroll s1) + dx * ratio\<rparr>
                else s1)
      in clampScroll s2)"

definition handlePan :: "rat \<times> rat \<Rightarrow> state \<Rightarrow> state" where
  "handlePan pos s =
     (let dx = fst pos - fst (lastMousePos s);
          dy = snd pos - snd (lastMousePos s)
      in clampScroll (s\<lparr>scrollX := scrollX s - dx, scrollY := scrollY s - dy\<rparr>))"

definition handlePlayheadDrag :: "rat \<Rightarrow> rat \<times> rat \<Rightarrow> state \<Rightarrow> state" where
  \<comment> \<open>\<open>now\<close> is \<open>performance.now()\<close>\<close>
  "handlePlayheadDrag now pos s =
     (let gridX = fst pos - keysWidth + scrollX s;
          t = (gridX / beatWidth) * ppqn s;
          s1 = s\<lparr>playheadTick := max 0 t\<rparr>;
          s2 = (if isPlaying s1 then buildLookaheadEvents s1 else s1)
      in s2\<lparr>playheadLastDraggedTime := now\<rparr>)"

fun in_marquee :: "state \<Rightarrow> rat \<times> rat \<times> rat \<times> rat \<Rightarrow> entry \<Rightarrow> bool" where
  \<comment> \<open>the filter of \<open>_selectNotesInMarquee\<close> on the rectangle of \<open>_getNoteRect\<close>; for an
      \<open>other\<close> record each of the four comparisons is against \<open>NaN\<close> and is false\<close>
  "in_marquee s (mx, my, mw, mh) (Note p v c st d od) =
     (let rx = tickToPixel s st; ry = pitchToPixel p; rw = tickToPixel s d; rh = noteHeight
      in \<not> (rx > mx + mw \<or> rx + rw < mx \<or> ry > my + mh \<or> ry + rh < my))"
| "in_marquee s (mx, my, mw, mh) (Other t m et oc) = True"

definition selectNotesInMarquee :: "state \<Rightarrow> state" where
  "selectNotesInMarquee s =
     (case marquee s of (x1, y1, x2, y2) \<Rightarrow>
        let mx = min x1 x2; my = min y1 y2; mw = \<bar>x1 - x2\<bar>; mh = \<bar>y1 - y2\<bar>;
            marqueeGrid = (mx - keysWidth + scrollX s, my - timelineHeight + scrollY s, mw, mh)
        in s\<lparr>selectedNotes := map fst (filter (\<lambda>(i, e). in_marquee s marqueeGrid e) (notes s))\<rparr>)"

definition onInteractionEnd :: "state \<Rightarrow> state" where
  \<comment> \<open>the event is also handed to the drawer when it has a captured control or an
      interaction of its own; that changes the drawer only\<close>
  "onInteractionEnd s =
     (let s1 = (case soundOnAdd s of
                  Some p \<Rightarrow> s\<lparr>emitted := emitted s @ [onStopNote p None], soundOnAdd := None\<rparr>
                | None \<Rightarrow> s);
          s2 = (if potentialDeselect s1 then s1\<lparr>selectedNotes := []\<rparr> else s1);
          s3 = (if isDragging s2 \<or> isResizing s2 \<or> wasAddingNote s2
                then recalculateSongDuration s2 else s2);
          s4 = (if isMarqueeSelecting s3 then selectNotesInMarquee s3 else s3);
          s5 = (if isDragging s4 \<or> isResizing s4 then s4\<lparr>selectedNotes := []\<rparr> else s4);
          s6 = (if isPanning s5 then s5\<lparr>isPanning := False\<rparr> else s5)
      in s6\<lparr>isDraggingPlayhead := False, isDragging := False, wasAddingNote := False,
             isResizing := False, isMarqueeSelecting := False, isDraggingVScroll := False,
             isDraggingHScroll := False, potentialDeselect := False\<rparr>)"

definition onInteractionMove :: "bool \<Rightarrow> bool \<Rightarrow> rat \<Rightarrow> rat \<times> rat \<Rightarrow> state \<Rightarrow> state" where
  \<comment> \<open>\<open>drawerBusy\<close>: the broker has a captured control or the drawer an interaction (the
      drawer takes the event); \<open>released\<close>: a \<open>mousemove\<close> with no button down\<close>
  "onInteractionMove drawerBusy released now pos s =
     (if drawerBusy then s
      else if released then onInteractionEnd s
      else
        let s1 = s\<lparr>potentialDeselect := False\<rparr>;
            s2 = (if isDraggingPlayhead s1 then handlePlayheadDrag now pos s1
                  else if isPanning s1 then handlePan pos s1
                  else if isDraggingVScroll s1 \<or> isDraggingHScroll s1
                       then handleScrollbarMouseMove pos s1
                  else if isDragging s1 then handleNoteDrag pos s1
                  else if isResizing s1 then handleNoteResize pos s1
                  else if isMarqueeSelecting s1 then handleMarqueeSelect pos s1
                  else s1)
        in s2\<lparr>lastMousePos := pos\<rparr>)"

section \<open>The piano roll: track parameters\<close>

datatype parameter_type = instrument | volume | unknown_parameter

definition toggleMute :: "int \<Rightarrow> state \<Rightarrow> state" where
  "toggleMute c s =
     (if c \<in> mutedChannels s then s\<lparr>mutedChannels := mutedChannels s - {c}\<rparr>
      else s\<lparr>mutedChannels := insert c (mutedChannels s)\<rparr>)"

fun track_cmp :: "nat \<times> entry \<Rightarrow> nat \<times> entry \<Rightarrow> rat" where
  \<comment> \<open>\<open>a.time - b.time || a.start_tick - b.start_tick\<close>: a difference with a missing field
      is \<open>NaN\<close>, which \<open>||\<close> skips and which the sort reads as 0\<close>
  "track_cmp (i, Other ta ma ea ca) (j, Other tb mb eb cb) = ta - tb"
| "track_cmp (i, Note pa va ca sa da oa) (j, Note pb vb cb sb db ob) = sa - sb"
| "track_cmp a b = 0"

fun find_index :: "('a \<Rightarrow> bool) \<Rightarrow> 'a list \<Rightarrow> nat option" where
  \<comment> \<open>\<open>findIndex\<close>, with \<open>None\<close> for -1\<close>
  "find_index P [] = None"
| "find_index P (x # xs) =
     (if P x then Some 0 else (case find_index P xs of Some k \<Rightarrow> Some (Suc k) | None \<Rightarrow> None))"

fun same_event :: "rat \<Rightarrow> event_type \<Rightarrow> int \<Rightarrow> nat \<times> entry \<Rightarrow> bool" where
  \<comment> \<open>\<open>e.time === tick && e.eventType === eventType && e.channel === (channel - 1)\<close>; a
      note has no \<open>time\<close>\<close>
  "same_event t et c (i, Other t' m' et' c') = (t' = t \<and> et' = Some et \<and> c' = Some c)"
| "same_event t et c (i, Note p v c' st d od) = False"

definition insertEvent :: "rat \<Rightarrow> event_type \<Rightarrow> int \<Rightarrow> int list \<Rightarrow> state \<Rightarrow> state" where
  \<comment> \<open>steps 3 to 5 of \<open>_setTrackParameter\<close> and the rebuild of the lookahead list\<close>
  "insertEvent now et ch message s0 =
     (let wasDraggedRecently = (now - playheadLastDraggedTime s0 < 10000);
          t = (if wasDraggedRecently then playheadTick s0 else 0);
          newEvent = Other t message (Some et) (Some (ch - 1));
          s = saveStateForUndo s0;
          obj = (nextId s, newEvent);
          s1 = s\<lparr>nextId := Suc (nextId s)\<rparr>;
          s2 = (case find_index (same_event t et (ch - 1)) (notes s1) of
                  Some k \<Rightarrow> s1\<lparr>notes := (notes s1)[k := obj]\<rparr>
                | None \<Rightarrow> s1\<lparr>notes := array_sort track_cmp (notes s1 @ [obj])\<rparr>)
      in buildLookaheadEvents s2)"

definition setTrackParameter :: "rat \<Rightarrow> int \<Rightarrow> parameter_type \<Rightarrow> int \<Rightarrow> state \<Rightarrow> state" where
  \<comment> \<open>\<open>now\<close> is \<open>performance.now()\<close>\<close>
  "setTrackParameter now ch ty v s =
     (case ty of
        instrument \<Rightarrow>
          (let message = [0xC0 OR toInt32 (ch - 1), v]
           in insertEvent now programChange ch message
                (s\<lparr>emitted := emitted s @ [onMidiMessage message]\<rparr>))
      | volume \<Rightarrow>
          (let message = [0xB0 OR toInt32 (ch - 1), 7, v]
           in insertEvent now volumeChange ch message
                (s\<lparr>emitted := emitted s @ [onMidiMessage message]\<rparr>))
      | unknown_parameter \<Rightarrow> s)"

section \<open>The piano roll as a state machine\<close>

text \<open>
  The operations above as the actions of a state machine, to speak about every state
  the component can reach from its initial one. The pointer-down handlers appear with
  the arguments \<open>_onInteractionStart\<close> gives them.
\<close>

datatype action =
    NoteMouseDown bool nat "rat \<times> rat"
  | GridMouseDown "rat \<times> rat"
  | ResizeMouseDown nat "rat \<times> rat"
  | PlayheadDrag rat "rat \<times> rat"
  | InteractionMove bool bool rat "rat \<times> rat"
  | InteractionEnd
  | DeleteNotes bool
  | Undo
  | Redo
  | LoadFromJson "message list" rat
  | SetTrackParameter rat int parameter_type int
  | ToggleMute int
  | Play rat
  | Pause
  | Stop
  | PlaybackLoop rat

fun perform :: "action \<Rightarrow> state \<Rightarrow> state" where
  "perform (NoteMouseDown modifier n pos) s = handleNoteMouseDown modifier n pos s"
| "perform (GridMouseDown pos) s = handleGridMouseDown pos s"
| "perform (ResizeMouseDown n pos) s = handleResizeMouseDown n pos s"
| "perform (PlayheadDrag now pos) s = handlePlayheadDrag now pos s"
| "perform (InteractionMove drawerBusy released now pos) s =
     onInteractionMove drawerBusy released now pos s"
| "perform InteractionEnd s = onInteractionEnd s"
| "perform (DeleteNotes confirmed) s = deleteNotes confirmed s"
| "perform Undo s = undo s"
| "perform Redo s = redo s"
| "perform (LoadFromJson messages q) s = loadFromJson messages q s"
| "perform (SetTrackParameter now ch ty v) s = setTrackParameter now ch ty v s"
| "perform (ToggleMute c) s = toggleMute c s"
| "perform (Play now) s = play now s"
| "perform Pause s = pause s"
| "perform Stop s = stop s"
| "perform (PlaybackLoop timestamp) s = playbackLoop timestamp s"

definition run :: "action list \<Rightarrow> state \<Rightarrow> state" where
  "run as s = foldl (\<lambda>s a. perform a s) s as"

fun takes_snapshot :: "action \<Rightarrow> state \<Rightarrow> bool" where
  \<comment> \<open>the actions that reach \<open>_saveStateForUndo\<close>, in the states in which they do\<close>
  "takes_snapshot (NoteMouseDown modifier n pos) s = True"
| "takes_snapshot (GridMouseDown pos) s = (mode s = mode_add)"
| "takes_snapshot (ResizeMouseDown n pos) s = True"
| "takes_snapshot (DeleteNotes confirmed) s = (confirmed \<and> selectedNotes s \<noteq> [])"
| "takes_snapshot (SetTrackParameter now ch ty v) s = (ty \<noteq> unknown_parameter)"
| "takes_snapshot a s = False"

text \<open>
  Vocabulary for statements about the undo history: the two stacks together, and the
  bound that every operation keeps.
\<close>

definition histories :: "state \<Rightarrow> entry list list \<times> entry list list" where
  "histories s = (undoHistory s, redoHistory s)"

definition history_bound :: "state \<Rightarrow> bool" where
  "history_bound s = (length (undoHistory s) + length (redoHistory s) \<le> MAX_HISTORY)"

text \<open>
  A resize gesture: pointer-down on the trailing edge of a note, then pointer-moves
  at the given positions.
\<close>

definition resize_gesture :: "nat \<Rightarrow> rat \<times> rat \<Rightarrow> (rat \<times> rat) list \<Rightarrow> state \<Rightarrow> state" where
  "resize_gesture note pos0 moves s0 =
     foldl (\<lambda>s pos. handleNoteResize pos s) (handleResizeMouseDown note pos0 s0) moves"

text \<open>
  Vocabulary for statements about the song duration: the end tick of a record (an
  \<open>other\<close> record is anchored at its \<open>time\<close>), the property that \<open>songDurationTicks\<close>
  is at least the end tick of every note, and the actions that reach
  \<open>_recalculateSongDuration\<close>, in the states in which they do.
\<close>

fun end_tick :: "entry \<Rightarrow> rat" where
  "end_tick (Note p v c st d od) = st + d"
| "end_tick (Other t m et oc) = t"

definition covers_notes :: "state \<Rightarrow> bool" where
  "covers_notes s =
     list_all (\<lambda>(i, e). is_Note e \<longrightarrow> end_tick e \<le> songDurationTicks s) (notes s)"

definition covers_all :: "state \<Rightarrow> bool" where
  "covers_all s = list_all (\<lambda>(i, e). end_tick e \<le> songDurationTicks s) (notes s)"

fun recomputes :: "action \<Rightarrow> state \<Rightarrow> bool" where
  "recomputes InteractionEnd s = (isDragging s \<or> isResizing s \<or> wasAddingNote s)"
| "recomputes (InteractionMove drawerBusy released now pos) s =
     (\<not> drawerBusy \<and> released \<and> (isDragging s \<or> isResizing s \<or> wasAddingNote s))"
| "recomputes (DeleteNotes confirmed) s = (confirmed \<and> selectedNotes s \<noteq> [])"
| "recomputes Undo s = (undoHistory s \<noteq> [])"
| "recomputes Redo s = (redoHistory s \<noteq> [])"
| "recomputes (LoadFromJson messages q) s = True"
| "recomputes a s = False"

text \<open>
  Vocabulary for statements about a playback frame: an event without its
  \<open>isPlaying\<close> flag, the sink call that firing an event makes, the same call without
  the flag, the events a frame at \<open>timestamp\<close> has to fire, and a list in tick order.
\<close>

definition payload :: "lookahead \<Rightarrow> lookahead" where
  "payload e = set_playing False e"

fun fire_call :: "lookahead \<Rightarrow> sink_call" where
  "fire_call (LnoteOn t p v c pl) = onPlayNote_event (LnoteOn t p v c pl)"
| "fire_call (LnoteOff t p c) = onStopNote_event (LnoteOff t p c)"
| "fire_call (Lother t m) = onMidiMessage m"

fun call_payload :: "sink_call \<Rightarrow> sink_call" where
  "call_payload (onPlayNote_event e) = onPlayNote_event (payload e)"
| "call_payload (onStopNote_event e) = onStopNote_event (payload e)"
| "call_payload c = c"

definition due :: "rat \<Rightarrow> state \<Rightarrow> lookahead \<Rightarrow> bool" where
  "due timestamp s e =
     (playheadTick s \<le> tick e \<and> tick e < playheadTick s + elapsedTicks s timestamp
      \<and> \<not> is_muted (mutedChannels s) e)"

definition tick_sorted :: "lookahead list \<Rightarrow> bool" where
  "tick_sorted evs = sorted (map tick evs)"

definition past_end :: "rat \<Rightarrow> state \<Rightarrow> bool" where
  "past_end timestamp s = (playheadTick s + elapsedTicks s timestamp > songDurationTicks s)"

definition look_sorted :: "state \<Rightarrow> bool" where
  "look_sorted s = tick_sorted (lookaheadEvents s)"

section \<open>The event broker and the drawer\<close>

text \<open>
  \<open>EventBroker\<close>, the captured branches of \<open>Drawer.handleEvent\<close>, and the control class
  \<open>PopupSliderControl\<close> with the \<open>VerticalSliderControl\<close> it contains (Drawer.js). A
  control is referred to by its index in \<open>controls\<close>; every call of a control's
  \<open>handleEvent\<close> is appended to \<open>delivered\<close> with the event it received. The callbacks of a control into the application (\<open>onStateChange\<close>) and
  drawing are not part of the model; \<open>draw\<close> is what positions the inner slider, whose
  position is a field here.
\<close>

datatype pointer_type = pointerdown | pointermove | pointerup | wheel

datatype owner = owner_undefined | owner_null | owner_control nat | owner_point rat rat

record event =
  event_type :: pointer_type
  event_x :: rat
  event_y :: rat
  event_deltaY :: rat
  event_owner :: owner

datatype action_kind = capture | release | persist

datatype result = Result (action: action_kind) (control: "nat option")

record rect =
  rect_x :: rat
  rect_y :: rat
  rect_width :: rat
  rect_height :: rat

definition isPointInRect :: "rat \<Rightarrow> rat \<Rightarrow> rect option \<Rightarrow> bool" where
  \<comment> \<open>\<open>rect && x >= rect.x && ...\<close>; \<open>None\<close> is \<open>null\<close>\<close>
  "isPointInRect px py r =
     (case r of
        None \<Rightarrow> False
      | Some b \<Rightarrow> px \<ge> rect_x b \<and> px \<le> rect_x b + rect_width b
                \<and> py \<ge> rect_y b \<and> py \<le> rect_y b + rect_height b)"

record vertical_slider =
  slider_x :: rat
  slider_y :: rat
  slider_width :: rat
  slider_height :: rat
  slider_min :: rat
  slider_max :: rat
  slider_value :: rat
  slider_isDragging :: bool

record popup_slider =
  button_x :: rat
  button_y :: rat
  button_width :: rat
  button_height :: rat
  isOpen :: bool
  slider :: vertical_slider

definition slider_isPointOnControl :: "vertical_slider \<Rightarrow> rat \<Rightarrow> rat \<Rightarrow> bool" where
  \<comment> \<open>the interactive area is the handle's x and width over the track's y and height\<close>
  "slider_isPointOnControl sl px py =
     isPointInRect px py
       (Some \<lparr>rect_x = slider_x sl, rect_y = slider_y sl, rect_width = slider_width sl,
              rect_height = slider_height sl\<rparr>)"

definition updateValueFromPosition :: "rat \<Rightarrow> vertical_slider \<Rightarrow> vertical_slider" where
  "updateValueFromPosition py sl =
     (let handleHeight = 28;
          relativeY = py - (slider_y sl + handleHeight / 2);
          ratio = 1 - max 0 (min 1 (relativeY / (slider_height sl - handleHeight)));
          newValue = of_int (Math_round (slider_min sl + ratio * (slider_max sl - slider_min sl)))
      in if newValue \<noteq> slider_value sl then sl\<lparr>slider_value := newValue\<rparr> else sl)"

definition slider_onPointerDown :: "rat \<Rightarrow> rat \<Rightarrow> vertical_slider
    \<Rightarrow> vertical_slider \<times> bool" where
  \<comment> \<open>the second component: whether the result is an object (\<open>capture\<close>) or \<open>null\<close>\<close>
  "slider_onPointerDown px py sl =
     (if slider_isPointOnControl sl px py
      then (updateValueFromPosition py (sl\<lparr>slider_isDragging := True\<rparr>), True)
      else (sl, False))"

definition getBounds :: "popup_slider \<Rightarrow> rect" where
  "getBounds c = \<lparr>rect_x = button_x c, rect_y = button_y c, rect_width = button_width c,
                  rect_height = button_height c\<rparr>"

definition getPopupBounds :: "popup_slider \<Rightarrow> rect option" where
  "getPopupBounds c =
     (if \<not> isOpen c then None
      else Some \<lparr>rect_x = button_x c, rect_y = button_y c + button_height c + 5,
                 rect_width = 60, rect_height = slider_height (slider c) + 40\<rparr>)"

definition onPointerDown :: "nat \<Rightarrow> rat \<Rightarrow> rat \<Rightarrow> owner \<Rightarrow> popup_slider
    \<Rightarrow> popup_slider \<times> result option" where
  \<comment> \<open>\<open>this\<close> is the index of the control itself\<close>
  "onPointerDown this px py ow c =
     (let popupBounds = getPopupBounds c
      in if isOpen c \<and> ow \<noteq> owner_control this
         then (c\<lparr>isOpen := False\<rparr>, Some (Result release None))
         else if isPointInRect px py (Some (getBounds c))
         then (let c1 = c\<lparr>isOpen := \<not> isOpen c\<rparr>
               in (c1, if isOpen c1 then Some (Result capture (Some this))
                       else Some (Result release None)))
         else if isOpen c \<and> isPointInRect px py popupBounds
         then (case slider_onPointerDown px py (slider c) of
                 (sl, r) \<Rightarrow> (c\<lparr>slider := sl\<rparr>,
                             if r then Some (Result persist (Some this)) else None))
         else (c, None))"

definition onPointerMove :: "rat \<Rightarrow> rat \<Rightarrow> popup_slider \<Rightarrow> popup_slider \<times> result option"
  where
  "onPointerMove px py c =
     (if isOpen c \<and> slider_isDragging (slider c)
      then (c\<lparr>slider := updateValueFromPosition py (slider c)\<rparr>, None)
      else (c, None))"

definition onPointerUp :: "popup_slider \<Rightarrow> popup_slider \<times> result option" where
  "onPointerUp c =
     (if slider_isDragging (slider c)
      then (c\<lparr>slider := (slider c)\<lparr>slider_isDragging := False\<rparr>\<rparr>, Some (Result persist None))
      else (c, None))"

definition control_handleEvent :: "nat \<Rightarrow> event \<Rightarrow> popup_slider
    \<Rightarrow> popup_slider \<times> result option" where
  \<comment> \<open>\<open>BaseControl.handleEvent\<close>; \<open>onWheel\<close> is the empty method of \<open>BaseControl\<close>\<close>
  "control_handleEvent this e c =
     (case event_type e of
        pointerdown \<Rightarrow> onPointerDown this (event_x e) (event_y e) (event_owner e) c
      | pointermove \<Rightarrow> onPointerMove (event_x e) (event_y e) c
      | pointerup \<Rightarrow> onPointerUp c
      | wheel \<Rightarrow> (c, None))"

record ui =
  capturedControl :: "nat option"
  controls :: "popup_slider list"
  scrollOffsetX :: rat
  scrollOffsetY :: rat
  calculatedHeight :: rat
  delivered :: "(nat \<times> event) list"

definition processResult :: "result option \<Rightarrow> ui \<Rightarrow> ui" where
  "processResult r u =
     (case r of
        None \<Rightarrow> u
      | Some (Result capture ctl) \<Rightarrow> u\<lparr>capturedControl := ctl\<rparr>
      | Some (Result release ctl) \<Rightarrow>
          (if capturedControl u \<noteq> None then u\<lparr>capturedControl := None\<rparr> else u)
      | Some (Result persist ctl) \<Rightarrow> u)"

definition deliver :: "nat \<Rightarrow> event \<Rightarrow> ui \<Rightarrow> ui \<times> result option" where
  \<comment> \<open>\<open>control.handleEvent(controlEvent)\<close> on the control of index \<open>k\<close>\<close>
  "deliver k e u =
     (if k < length (controls u)
      then (case control_handleEvent k e (controls u ! k) of
              (c, r) \<Rightarrow> (u\<lparr>controls := (controls u)[k := c], delivered := delivered u @ [(k, e)]\<rparr>, r))
      else (u, None))"

definition dispatchEvent :: "event \<Rightarrow> nat option \<Rightarrow> ui \<Rightarrow> ui" where
  "dispatchEvent e targetControl u =
     (case capturedControl u of
        Some k \<Rightarrow> (case deliver k (e\<lparr>event_owner := owner_control k\<rparr>) u of
                     (u1, r) \<Rightarrow> processResult r u1)
      | None \<Rightarrow>
          (case targetControl of
             Some k \<Rightarrow> (case deliver k (e\<lparr>event_owner := owner_control k\<rparr>) u of
                          (u1, r) \<Rightarrow> processResult r u1)
           | None \<Rightarrow> u))"

definition handleGlobalClick :: "event \<Rightarrow> ui \<Rightarrow> ui" where
  "handleGlobalClick e u =
     (case capturedControl u of
        Some k \<Rightarrow> (case deliver k (e\<lparr>event_type := pointerdown, event_owner := owner_null\<rparr>) u of
                     (u1, r) \<Rightarrow> processResult r u1)
      | None \<Rightarrow> u)"

definition isPointInBounds :: "ui \<Rightarrow> rat \<Rightarrow> rat \<Rightarrow> bool" where
  "isPointInBounds u px py = (py < calculatedHeight u)"

text \<open>
  \<open>Drawer.handleEvent\<close> while a control is captured (priorities 0 and 1). With no
  captured control the event goes to the drawer's own interactions and to the hit test
  of the active tab, which are not embedded: the result is \<open>None\<close> there.
\<close>

definition Drawer_handleEvent :: "event \<Rightarrow> ui \<Rightarrow> ui option" where
  "Drawer_handleEvent e0 u =
     (let e = (if capturedControl u \<noteq> None \<and> \<not> isPointInBounds u (event_x e0) (event_y e0)
               then e0\<lparr>event_x := event_x e0 + scrollOffsetX u,
                       event_y := event_y e0 + scrollOffsetY u\<rparr>
               else e0)
      in if capturedControl u \<noteq> None \<and> \<not> isPointInBounds u (event_x e) (event_y e)
         then Some (dispatchEvent (e\<lparr>event_owner := owner_null\<rparr>) (capturedControl u) u)
         else if capturedControl u \<noteq> None
         then (if event_type e = wheel
               then Some (dispatchEvent (e\<lparr>event_owner := owner_point (event_x e) (event_y e)\<rparr>)
                            (capturedControl u) u)
               else Some (dispatchEvent (e\<lparr>event_x := event_x e + scrollOffsetX u,
                                           event_y := event_y e + scrollOffsetY u\<rparr>)
                            (capturedControl u) u))
         else None)"

text \<open>
  A drawer of height 150 with one closed tempo control (the \<open>PopupSliderControl\<close> of
  the Playback tab: width 100, slider height 120, range 40 to 240, value 120), nothing
  captured; and the pointer-down events used below.
\<close>

definition tempo_control :: popup_slider where
  "tempo_control = \<lparr>button_x = 20, button_y = 50, button_width = 100, button_height = 28,
     isOpen = False,
     slider = \<lparr>slider_x = 38, slider_y = 103, slider_width = 24, slider_height = 120,
                slider_min = 40, slider_max = 240, slider_value = 120,
                slider_isDragging = False\<rparr>\<rparr>"

definition initial_ui :: ui where
  "initial_ui = \<lparr>capturedControl = None, controls = [tempo_control], scrollOffsetX = 0,
     scrollOffsetY = 0, calculatedHeight = 150, delivered = []\<rparr>"

definition pointer_down_at :: "rat \<Rightarrow> rat \<Rightarrow> event" where
  "pointer_down_at px py = \<lparr>event_type = pointerdown, event_x = px, event_y = py,
     event_deltaY = 0, event_owner = owner_undefined\<rparr>"


section \<open>Properties of the variable-length quantities\<close>

lemma and127: "(v::int) AND 0x7F = v mod 128"
proof -
  have "v AND mask 7 = v mod 2 ^ 7" by (simp add: take_bit_eq_mod flip: take_bit_eq_mask)
  moreover have "mask 7 = (127::int)" by (simp add: mask_eq_exp_minus_1)
  ultimately show ?thesis by simp
qed

lemma or128: "0 \<le> d \<Longrightarrow> d < 128 \<Longrightarrow> (d::int) OR 0x80 = d + 128"
proof -
  assume a: "0 \<le> d" "d < 128"
  have "\<not> bit d 7" using a by (simp add: bit_iff_odd)
  then have "set_bit 7 d = d + 128" by (simp add: set_bit_eq)
  moreover have "set_bit 7 d = d OR 128" by (simp add: set_bit_eq_or)
  ultimately show ?thesis by simp
qed

lemma hi_clear: "0 \<le> d \<Longrightarrow> d < 128 \<Longrightarrow> (d::int) AND 0x80 = 0"
proof -
  assume a: "0 \<le> d" "d < 128"
  have "\<not> bit d 7" using a by (simp add: bit_iff_odd)
  moreover have "(d AND 2 ^ 7 = 0) = (\<not> bit d 7)" by (rule and_exp_eq_0_iff_not_bit)
  ultimately show ?thesis by simp
qed

lemma hi_set: "0 \<le> d \<Longrightarrow> d < 128 \<Longrightarrow> ((d::int) + 128) AND 0x80 \<noteq> 0"
proof -
  assume a: "0 \<le> d" "d < 128"
  have "(d + 128) div 128 = 1" using a by simp
  then have "bit (d + 128) 7" by (simp add: bit_iff_odd)
  moreover have "((d + 128) AND 2 ^ 7 = 0) = (\<not> bit (d + 128) 7)" by (rule and_exp_eq_0_iff_not_bit)
  ultimately show ?thesis by simp
qed

lemma low7_plus128: "0 \<le> d \<Longrightarrow> d < 128 \<Longrightarrow> ((d::int) + 128) AND 0x7F = d"
  by (simp add: and127)

lemma toInt32_id: "0 \<le> v \<Longrightarrow> v < 2 ^ 31 \<Longrightarrow> toInt32 v = v"
  by (simp add: toInt32_def signed_take_bit_int_eq_self)

declare vlq_loop.simps [simp del] groups128.simps [simp del]

lemma vlq_loop_groups:
  "0 \<le> v \<Longrightarrow> rev (vlq_loop v bytes) = map (\<lambda>d. d + 128) (groups128 v) @ rev bytes"
proof (induction v bytes rule: vlq_loop.induct)
  case (1 v bytes)
  show ?case
  proof (cases "v > 0")
    case True
    have d: "0 \<le> v mod 128" "v mod 128 < 128" by simp_all
    have "rev (vlq_loop v bytes) = rev (vlq_loop (v div 128) (bytes @ [v mod 128 + 128]))"
      using True d by (subst vlq_loop.simps) (simp add: and127 or128 drop_bit_eq_div)
    also have "\<dots> = map (\<lambda>d. d + 128) (groups128 (v div 128)) @ rev (bytes @ [v mod 128 + 128])"
      using "1.IH" [OF True] True by (simp add: and127 or128 drop_bit_eq_div pos_imp_zdiv_nonneg_iff)
    also have "\<dots> = map (\<lambda>d. d + 128) (groups128 v) @ rev bytes"
      using True by (subst (2) groups128.simps) simp
    finally show ?thesis .
  next
    case False
    then show ?thesis by (subst vlq_loop.simps, subst groups128.simps) simp
  qed
qed

lemma writeVlq_groups:
  assumes "0 \<le> n" "n < 2 ^ 31"
  shows "writeVlq n = map (\<lambda>d. d + 128) (groups128 (n div 128)) @ [n mod 128]"
  using assms
  by (simp add: writeVlq_def toInt32_id vlq_loop_groups and127 drop_bit_eq_div
      pos_imp_zdiv_nonneg_iff)

lemma groups128_range: "d \<in> set (groups128 v) \<Longrightarrow> 0 \<le> d \<and> d < 128"
proof (induction v rule: groups128.induct)
  case (1 v)
  show ?case
  proof (cases "v > 0")
    case True
    with 1 show ?thesis by (subst (asm) (2) groups128.simps) (auto split: if_splits)
  next
    case False
    with 1(2) show ?thesis by (subst (asm) groups128.simps) simp
  qed
qed

lemma decode_groups:
  assumes "\<forall>d \<in> set ds. 0 \<le> d \<and> d < 128" "0 \<le> l" "l < 128"
  shows "decodeVlq_from acc (map (\<lambda>d. d + 128) ds @ [l] @ rest)
       = Some (foldl (\<lambda>a d. a * 128 + d) acc (ds @ [l]), rest)"
  using assms
proof (induction ds arbitrary: acc)
  case Nil
  then show ?case by (simp add: hi_clear and127)
next
  case (Cons d ds)
  then show ?case by (simp add: hi_set low7_plus128)
qed

lemma foldl_groups:
  "0 \<le> v \<Longrightarrow> foldl (\<lambda>a d. a * 128 + d) 0 (groups128 v) = v"
proof (induction v rule: groups128.induct)
  case (1 v)
  show ?case
  proof (cases "v > 0")
    case True
    have "foldl (\<lambda>a d. a * 128 + d) 0 (groups128 (v div 128)) = v div 128"
      using "1.IH" [OF True] True by (simp add: pos_imp_zdiv_nonneg_iff)
    then show ?thesis using True by (subst groups128.simps) simp
  next
    case False
    with 1(2) show ?thesis by (subst groups128.simps) simp
  qed
qed

lemma groups128_lower:
  "0 < v \<Longrightarrow> 128 ^ (length (groups128 v) - 1) \<le> v"
proof (induction v rule: groups128.induct)
  case (1 v)
  show ?case
  proof (cases "v div 128 > 0")
    case True
    have ih: "128 ^ (length (groups128 (v div 128)) - 1) \<le> v div 128"
      using "1.IH" [OF "1.prems" True] .
    have len: "length (groups128 (v div 128)) > 0"
      using True by (subst groups128.simps) simp
    have "length (groups128 v) - 1 = Suc (length (groups128 (v div 128)) - 1)"
      using "1.prems" len by (subst groups128.simps) simp
    then have "(128::int) ^ (length (groups128 v) - 1) = 128 * 128 ^ (length (groups128 (v div 128)) - 1)"
      by simp
    also have "\<dots> \<le> 128 * (v div 128)" using ih by simp
    also have "\<dots> \<le> v" by (simp add: mult_div_mod_eq [symmetric] del: mult_div_mod_eq) 
    finally show ?thesis .
  next
    case False
    then have "groups128 (v div 128) = []" by (subst groups128.simps) simp
    then have "length (groups128 v) = 1" using "1.prems" by (subst groups128.simps) simp
    then show ?thesis using "1.prems" by simp
  qed
qed

lemma decode_upper:
  "decodeVlq_from acc bs = Some (n, rest) \<Longrightarrow> 0 \<le> acc \<Longrightarrow>
     n < (acc + 1) * 128 ^ (length bs - length rest) \<and> length rest < length bs"
proof (induction bs arbitrary: acc)
  case Nil
  then show ?case by simp
next
  case (Cons b bs)
  have r: "0 \<le> b mod 128" "b mod 128 < 128" by simp_all
  show ?case
  proof (cases "b AND 0x80 = 0")
    case True
    with Cons.prems have "n = acc * 128 + b mod 128" "rest = bs" by (simp_all add: and127)
    then show ?thesis using r by (simp add: algebra_simps)
  next
    case False
    with Cons.prems have rec: "decodeVlq_from (acc * 128 + b mod 128) bs = Some (n, rest)"
      by (simp add: and127)
    have a0: "0 \<le> acc * 128 + b mod 128" using Cons.prems(2) r by simp
    from Cons.IH [OF rec a0]
    have ih: "n < (acc * 128 + b mod 128 + 1) * 128 ^ (length bs - length rest)"
      and l: "length rest < length bs" by simp_all
    have "(acc * 128 + b mod 128 + 1) \<le> (acc + 1) * 128" using r by (simp add: algebra_simps)
    then have "(acc * 128 + b mod 128 + 1) * 128 ^ (length bs - length rest)
        \<le> ((acc + 1) * 128) * 128 ^ (length bs - length rest)"
      by (rule mult_right_mono) simp
    also have "\<dots> = (acc + 1) * 128 ^ (length (b # bs) - length rest)"
      using l by (simp add: Suc_diff_le)
    finally show ?thesis using ih l by simp
  qed
qed


lemma writeVlq_length:
  assumes "0 \<le> n" "n < 2 ^ 31"
  shows "length (writeVlq n) = Suc (length (groups128 (n div 128)))"
  using assms by (simp add: writeVlq_groups)

lemma writeVlq_lower:
  assumes "0 \<le> n" "n < 2 ^ 31"
  shows "128 ^ (length (writeVlq n) - 1) \<le> max 1 n"
proof (cases "n div 128 > 0")
  case True
  have "128 ^ (length (groups128 (n div 128)) - 1) \<le> n div 128"
    using groups128_lower [OF True] .
  moreover have "length (groups128 (n div 128)) > 0"
    using True by (subst groups128.simps) simp
  ultimately have "(128::int) ^ length (groups128 (n div 128)) \<le> 128 * (n div 128)"
    by (cases "length (groups128 (n div 128))") simp_all
  also have "\<dots> \<le> n" by (simp add: mult_div_mod_eq [symmetric] del: mult_div_mod_eq)
  finally show ?thesis using assms by (simp add: writeVlq_length)
next
  case False
  then have "groups128 (n div 128) = []" by (subst groups128.simps) simp
  then show ?thesis using assms by (simp add: writeVlq_length)
qed

text \<open>
  Claim C2. For every integer \<open>n\<close> from 0 to \<open>0x0FFFFFFF\<close>, \<open>writeVlq n\<close> is the
  most-significant-first base-128 encoding of \<open>n\<close>: its 7-bit groups in that order, the
  high bit set on every byte but the last. The decoder of the spec reads \<open>n\<close> back from it
  and leaves nothing over, it has at most four bytes, and no byte sequence that decodes
  to \<open>n\<close> is shorter.
\<close>

theorem writeVlq_correct:
  assumes "0 \<le> n" and "n \<le> 0x0FFFFFFF"
  shows "decodeVlq (writeVlq n) = Some (n, [])
       \<and> writeVlq n = map (\<lambda>d. d + 128) (groups128 (n div 128)) @ [n mod 128]
       \<and> (\<forall>b \<in> set (butlast (writeVlq n)). 128 \<le> b \<and> b < 256)
       \<and> 0 \<le> last (writeVlq n) \<and> last (writeVlq n) < 128
       \<and> length (writeVlq n) \<le> 4
       \<and> (\<forall>bs. decodeVlq bs = Some (n, []) \<longrightarrow> length (writeVlq n) \<le> length bs)"
proof -
  have n31: "n < 2 ^ 31" using assms(2) by simp
  let ?g = "groups128 (n div 128)"
  have w: "writeVlq n = map (\<lambda>d. d + 128) ?g @ [n mod 128]"
    using writeVlq_groups [OF assms(1) n31] .
  have rng: "\<forall>d \<in> set ?g. 0 \<le> d \<and> d < 128" using groups128_range by blast
  have nd: "0 \<le> n div 128" using assms(1) by (simp add: pos_imp_zdiv_nonneg_iff)
  have "decodeVlq (writeVlq n) = Some (foldl (\<lambda>a d. a * 128 + d) 0 (?g @ [n mod 128]), [])"
    using decode_groups [OF rng, of "n mod 128" 0 "[]"] by (simp add: decodeVlq_def w)
  also have "foldl (\<lambda>a d. a * 128 + d) 0 (?g @ [n mod 128]) = n"
    using foldl_groups [OF nd] by simp
  finally have dec: "decodeVlq (writeVlq n) = Some (n, [])" .
  have hi: "\<forall>b \<in> set (butlast (writeVlq n)). 128 \<le> b \<and> b < 256"
    using rng by (auto simp: w butlast_append)
  have lo: "0 \<le> last (writeVlq n) \<and> last (writeVlq n) < 128" by (simp add: w)
  have low: "128 ^ (length (writeVlq n) - 1) \<le> max 1 n"
    using writeVlq_lower [OF assms(1) n31] .
  have len4: "length (writeVlq n) \<le> 4"
  proof (rule ccontr)
    assume "\<not> length (writeVlq n) \<le> 4"
    then have "4 \<le> length (writeVlq n) - 1" by simp
    then have "(128::int) ^ 4 \<le> 128 ^ (length (writeVlq n) - 1)"
      by (rule power_increasing) simp
    with low assms(2) show False by simp
  qed
  have minimal: "\<forall>bs. decodeVlq bs = Some (n, []) \<longrightarrow> length (writeVlq n) \<le> length bs"
  proof (intro allI impI)
    fix bs assume d: "decodeVlq bs = Some (n, [])"
    from decode_upper [of 0 bs n "[]"] d
    have up: "n < 128 ^ length bs" and ne: "0 < length bs" by (simp_all add: decodeVlq_def)
    show "length (writeVlq n) \<le> length bs"
    proof (rule ccontr)
      assume "\<not> length (writeVlq n) \<le> length bs"
      then have "length bs \<le> length (writeVlq n) - 1" by simp
      then have p: "(128::int) ^ length bs \<le> 128 ^ (length (writeVlq n) - 1)"
        by (rule power_increasing) simp
      have "1 \<le> length bs" using ne by (cases bs) simp_all
      then have "(128::int) ^ 1 \<le> 128 ^ length bs"
        by (rule power_increasing) simp
      then have q: "(128::int) \<le> 128 ^ length bs" by simp
      have gen: "\<And>A B::int. A \<le> B \<Longrightarrow> 128 \<le> A \<Longrightarrow> B \<le> max 1 n \<Longrightarrow> n < A \<Longrightarrow> False"
        by (simp add: max_def split: if_splits)
      from gen [OF p q low up] show False .
    qed
  qed
  from dec w hi lo len4 minimal show ?thesis by blast
qed

theorem writeVlq_correct_witness:
  "(0::int) \<le> 300 \<and> (300::int) \<le> 0x0FFFFFFF \<and> writeVlq 300 = [130, 44]
   \<and> decodeVlq (writeVlq 300) = Some (300, [])
   \<and> length (writeVlq 300) \<le> length [130, 44 :: int]"
proof -
  have a: "(0::int) \<le> 300" and b: "(300::int) \<le> 0x0FFFFFFF" by simp_all
  have e: "writeVlq 300 = [130, 44]" by code_simp
  have d: "decodeVlq [130, 44] = Some (300, [])" by code_simp
  from writeVlq_correct [OF a b] d e show ?thesis by simp
qed

section \<open>Properties of the sort\<close>

lemma mset_insert_by: "mset (insert_by cmp x ys) = add_mset x (mset ys)"
  by (induction ys) simp_all

lemma mset_sort_loop:
  "mset (foldl (\<lambda>acc x. insert_by cmp x acc) acc xs) = mset acc + mset xs"
  by (induction xs arbitrary: acc) (simp_all add: mset_insert_by)

lemma mset_array_sort: "mset (array_sort cmp xs) = mset xs"
  by (simp add: array_sort_def mset_sort_loop)

lemma set_array_sort: "set (array_sort cmp xs) = set xs"
  using mset_array_sort [of cmp xs] by (metis set_mset_mset)

lemma distinct_array_sort: "distinct (array_sort cmp xs) = distinct xs"
  using mset_array_sort [of cmp xs] by (metis mset_eq_imp_distinct_iff)

lemma length_array_sort: "length (array_sort cmp xs) = length xs"
  using mset_array_sort [of cmp xs] by (metis size_mset)

lemma insert_by_descending:
  fixes key :: "'a \<Rightarrow> rat"
  assumes gt: "\<And>y. cmp y x > 0 \<Longrightarrow> key x \<le> key y"
    and le: "\<And>y. \<not> cmp y x > 0 \<Longrightarrow> key y \<le> key x"
    and srt: "sorted_wrt (\<lambda>a b. key b \<le> key a) ys"
  shows "sorted_wrt (\<lambda>a b. key b \<le> key a) (insert_by cmp x ys)"
  using srt
proof (induction ys)
  case Nil
  then show ?case by simp
next
  case (Cons y ys)
  show ?case
  proof (cases "cmp y x > 0")
    case True
    have "\<forall>z \<in> set (insert_by cmp x ys). key z \<le> key y"
    proof
      fix z assume "z \<in> set (insert_by cmp x ys)"
      then have "z \<in># mset (insert_by cmp x ys)" by simp
      then have "z = x \<or> z \<in> set ys" by (simp add: mset_insert_by)
      then show "key z \<le> key y" using gt [OF True] Cons.prems by auto
    qed
    moreover have "sorted_wrt (\<lambda>a b. key b \<le> key a) (insert_by cmp x ys)"
      using Cons by simp
    ultimately show ?thesis using True by simp
  next
    case False
    have "key y \<le> key x" using le [OF False] .
    moreover have "\<forall>z \<in> set ys. key z \<le> key y" using Cons.prems by simp
    ultimately have "\<forall>z \<in> set (y # ys). key z \<le> key x" by auto
    then show ?thesis using False Cons.prems by simp
  qed
qed

lemma sort_loop_descending:
  fixes key :: "'a \<Rightarrow> rat"
  assumes gt: "\<And>x y. cmp y x > 0 \<Longrightarrow> key x \<le> key y"
    and le: "\<And>x y. \<not> cmp y x > 0 \<Longrightarrow> key y \<le> key x"
  shows "sorted_wrt (\<lambda>a b. key b \<le> key a) acc \<Longrightarrow>
         sorted_wrt (\<lambda>a b. key b \<le> key a) (foldl (\<lambda>acc x. insert_by cmp x acc) acc xs)"
proof (induction xs arbitrary: acc)
  case Nil
  then show ?case by simp
next
  case (Cons x xs)
  have "sorted_wrt (\<lambda>a b. key b \<le> key a) (insert_by cmp x acc)"
    using gt le Cons.prems by (rule insert_by_descending)
  then show ?case using Cons.IH by simp
qed

lemma array_sort_sorted:
  fixes key :: "'a \<Rightarrow> rat"
  assumes gt: "\<And>x y. cmp y x > 0 \<Longrightarrow> key x \<le> key y"
    and le: "\<And>x y. \<not> cmp y x > 0 \<Longrightarrow> key y \<le> key x"
  shows "sorted_wrt (\<lambda>a b. key a \<le> key b) (array_sort cmp xs)"
proof -
  have "sorted_wrt (\<lambda>a b. key b \<le> key a) (foldl (\<lambda>acc x. insert_by cmp x acc) [] xs)"
    by (rule sort_loop_descending [where key = key, OF gt le]) simp_all
  then show ?thesis by (simp add: array_sort_def sorted_wrt_rev)
qed

lemma sort_loop_sorted_input:
  fixes key :: "'a \<Rightarrow> rat"
  assumes keep: "\<And>x y. key y \<le> key x \<Longrightarrow> \<not> cmp y x > 0"
  shows "sorted_wrt (\<lambda>a b. key a \<le> key b) (rev acc @ xs) \<Longrightarrow>
         foldl (\<lambda>acc x. insert_by cmp x acc) acc xs = rev xs @ acc"
proof (induction xs arbitrary: acc)
  case Nil
  then show ?case by simp
next
  case (Cons x xs)
  have ins: "insert_by cmp x acc = x # acc"
  proof (cases acc)
    case Nil
    then show ?thesis by simp
  next
    case (Cons y ys)
    with Cons.prems have "key y \<le> key x" by (simp add: sorted_wrt_append)
    then show ?thesis using keep Cons by simp
  qed
  have "sorted_wrt (\<lambda>a b. key a \<le> key b) (rev (x # acc) @ xs)" using Cons.prems by simp
  from Cons.IH [OF this] show ?case by (simp add: ins)
qed

lemma array_sort_sorted_input:
  fixes key :: "'a \<Rightarrow> rat"
  assumes keep: "\<And>x y. key y \<le> key x \<Longrightarrow> \<not> cmp y x > 0"
    and "sorted_wrt (\<lambda>a b. key a \<le> key b) xs"
  shows "array_sort cmp xs = xs"
  using sort_loop_sorted_input [of key cmp "[]" xs] assms by (simp add: array_sort_def)

lemma export_cmp_gt: "export_cmp y x > 0 \<Longrightarrow> msg_time x \<le> msg_time y"
  by (auto simp: export_cmp_def split: if_splits message.splits)

lemma export_cmp_le: "\<not> export_cmp y x > 0 \<Longrightarrow> msg_time y \<le> msg_time x"
  by (auto simp: export_cmp_def split: if_splits message.splits)

lemma notesToMessages_sorted:
  "sorted_wrt (\<lambda>a b. msg_time a \<le> msg_time b) (notesToMessages ns)"
  unfolding notesToMessages_def
  by (rule array_sort_sorted) (erule export_cmp_gt, erule export_cmp_le)

lemma time_sort_sorted_input:
  "sorted_wrt (\<lambda>a b. msg_time a \<le> msg_time b) ms \<Longrightarrow> array_sort time_cmp ms = ms"
  by (rule array_sort_sorted_input [where key = msg_time]) (simp_all add: time_cmp_def)

section \<open>Properties of the message-list codec\<close>

lemma notes_messages_note:
  "is_Note n \<Longrightarrow> notes_messages n = [on_of n, off_of n]"
  by (cases n) (simp_all add: js_or0_def)

lemma on_of_inj:
  "is_Note a \<Longrightarrow> is_Note b \<Longrightarrow> on_of a = on_of b \<Longrightarrow> key_of a = key_of b"
  by (cases a; cases b) simp_all

lemma off_of_inj:
  "is_Note a \<Longrightarrow> is_Note b \<Longrightarrow> off_of a = off_of b \<Longrightarrow> key_of a = key_of b"
  by (cases a; cases b) simp_all

lemma on_off_differ: "is_Note a \<Longrightarrow> is_Note b \<Longrightarrow> on_of a \<noteq> off_of b"
  by (cases a; cases b) simp_all

lemma key_eq_imp_eq:
  "distinct (map key_of ns) \<Longrightarrow> a \<in> set ns \<Longrightarrow> b \<in> set ns \<Longrightarrow> key_of a = key_of b \<Longrightarrow> a = b"
  by (meson distinct_map inj_onD)

lemma pair_step_on:
  "is_Note n \<Longrightarrow> 0 < velocity n \<Longrightarrow>
   pair_step (acc, opened) (on_of n) = (acc, opened(key_of n \<mapsto> on_of n))"
  by (cases n) simp_all

lemma pair_step_off:
  "is_Note n \<Longrightarrow> opened (key_of n) = Some (on_of n) \<Longrightarrow>
   pair_step (acc, opened) (off_of n) = (acc @ [five_fields n], opened(key_of n := None))"
  by (cases n) simp_all

lemma filter_one_more:
  "distinct ns \<Longrightarrow> n \<in> set ns \<Longrightarrow> \<not> Q n \<Longrightarrow>
   mset (filter (\<lambda>x. x = n \<or> Q x) ns) = add_mset n (mset (filter Q ns))"
proof (induction ns)
  case Nil
  then show ?case by simp
next
  case (Cons a ns)
  show ?case
  proof (cases "a = n")
    case True
    then have "n \<notin> set ns" using Cons.prems by simp
    then have "filter (\<lambda>x. x = n \<or> Q x) ns = filter Q ns"
      by (intro filter_cong) auto
    then show ?thesis using True Cons.prems by simp
  next
    case False
    then show ?thesis using Cons by auto
  qed
qed

lemma pairing:
  assumes isn0: "list_all is_Note ns"
    and keys: "distinct (map key_of ns)"
    and dur: "list_all (\<lambda>e. 0 < duration_ticks e) ns"
    and vel: "list_all (\<lambda>e. 0 < velocity e) ns"
  shows "sorted_wrt (\<lambda>a b. msg_time a \<le> msg_time b) ms \<Longrightarrow> distinct ms \<Longrightarrow>
         set ms \<subseteq> on_of ` set ns \<union> off_of ` set ns \<Longrightarrow>
         (\<forall>n \<in> set ns. off_of n \<in> set ms \<longrightarrow>
            on_of n \<in> set ms \<or> opened (key_of n) = Some (on_of n)) \<Longrightarrow>
         mset (fst (foldl pair_step (acc, opened) ms))
           = mset acc + mset (map five_fields (filter (\<lambda>n. off_of n \<in> set ms) ns))"
proof (induction ms arbitrary: acc opened)
  case Nil
  then show ?case by simp
next
  case (Cons m ms)
  have isn: "\<And>n. n \<in> set ns \<Longrightarrow> is_Note n" using isn0 by (simp add: list_all_iff)
  have dns: "distinct ns" using keys by (simp add: distinct_map)
  have srt: "sorted_wrt (\<lambda>a b. msg_time a \<le> msg_time b) ms" using Cons.prems(1) by simp
  have dms: "distinct ms" and mnot: "m \<notin> set ms" using Cons.prems(2) by simp_all
  have sub: "set ms \<subseteq> on_of ` set ns \<union> off_of ` set ns" using Cons.prems(3) by simp
  from Cons.prems(3) have "m \<in> on_of ` set ns \<or> m \<in> off_of ` set ns" by auto
  then show ?case
  proof
    assume "m \<in> on_of ` set ns"
    then obtain n where n: "n \<in> set ns" and m: "m = on_of n" by auto
    have vn: "0 < velocity n" using vel n by (simp add: list_all_iff)
    have step: "pair_step (acc, opened) m = (acc, opened(key_of n \<mapsto> on_of n))"
      unfolding m using isn [OF n] vn by (rule pair_step_on)
    have inv: "\<forall>n' \<in> set ns. off_of n' \<in> set ms \<longrightarrow>
        on_of n' \<in> set ms \<or> (opened(key_of n \<mapsto> on_of n)) (key_of n') = Some (on_of n')"
    proof (intro ballI impI)
      fix n' assume n': "n' \<in> set ns" and off: "off_of n' \<in> set ms"
      show "on_of n' \<in> set ms \<or> (opened(key_of n \<mapsto> on_of n)) (key_of n') = Some (on_of n')"
      proof (cases "key_of n' = key_of n")
        case True
        then have "n' = n" using key_eq_imp_eq [OF keys n' n] by simp
        then show ?thesis by simp
      next
        case False
        then have "on_of n' \<noteq> m" unfolding m using on_of_inj [OF isn [OF n'] isn [OF n]] by blast
        moreover have "on_of n' \<in> set (m # ms) \<or> opened (key_of n') = Some (on_of n')"
          using Cons.prems(4) n' off by simp
        ultimately show ?thesis using False by auto
      qed
    qed
    have same: "filter (\<lambda>n'. off_of n' \<in> set (m # ms)) ns = filter (\<lambda>n'. off_of n' \<in> set ms) ns"
    proof (rule filter_cong [OF refl])
      fix n' assume n': "n' \<in> set ns"
      have "off_of n' \<noteq> m" unfolding m using on_off_differ [OF isn [OF n] isn [OF n']] by simp
      then show "(off_of n' \<in> set (m # ms)) = (off_of n' \<in> set ms)" by auto
    qed
    have "mset (fst (foldl pair_step (acc, opened) (m # ms)))
        = mset (fst (foldl pair_step (acc, opened(key_of n \<mapsto> on_of n)) ms))"
      by (simp only: foldl_Cons step)
    also have "\<dots> = mset acc + mset (map five_fields (filter (\<lambda>n. off_of n \<in> set ms) ns))"
      by (rule Cons.IH [OF srt dms sub inv])
    also have "\<dots> = mset acc + mset (map five_fields (filter (\<lambda>n. off_of n \<in> set (m # ms)) ns))"
      by (simp only: same)
    finally show ?thesis .
  next
    assume "m \<in> off_of ` set ns"
    then obtain n where n: "n \<in> set ns" and m: "m = off_of n" by auto
    obtain p v c st d od where nn: "n = Note p v c st d od"
      using isn [OF n] by (cases n) simp_all
    have dn: "0 < d" using dur n nn by (auto simp: list_all_iff)
    have "on_of n \<notin> set ms"
    proof
      assume "on_of n \<in> set ms"
      then have "msg_time m \<le> msg_time (on_of n)" using Cons.prems(1) by auto
      then show False using dn by (simp add: m nn)
    qed
    moreover have "on_of n \<noteq> m" unfolding m using on_off_differ [OF isn [OF n] isn [OF n]] .
    ultimately have opn: "opened (key_of n) = Some (on_of n)"
      using Cons.prems(4) n by (auto simp: m)
    have step: "pair_step (acc, opened) m = (acc @ [five_fields n], opened(key_of n := None))"
      unfolding m using isn [OF n] opn by (rule pair_step_off)
    have inv: "\<forall>n' \<in> set ns. off_of n' \<in> set ms \<longrightarrow>
        on_of n' \<in> set ms \<or> (opened(key_of n := None)) (key_of n') = Some (on_of n')"
    proof (intro ballI impI)
      fix n' assume n': "n' \<in> set ns" and off: "off_of n' \<in> set ms"
      have "off_of n' \<noteq> m" using off mnot by auto
      then have "n' \<noteq> n" unfolding m by auto
      then have kk: "key_of n' \<noteq> key_of n" using key_eq_imp_eq [OF keys n' n] by auto
      have "on_of n' \<noteq> m" unfolding m using on_off_differ [OF isn [OF n'] isn [OF n]] .
      moreover have "on_of n' \<in> set (m # ms) \<or> opened (key_of n') = Some (on_of n')"
        using Cons.prems(4) n' off by simp
      ultimately show "on_of n' \<in> set ms \<or> (opened(key_of n := None)) (key_of n') = Some (on_of n')"
        using kk by auto
    qed
    have "filter (\<lambda>n'. off_of n' \<in> set (m # ms)) ns
        = filter (\<lambda>n'. n' = n \<or> off_of n' \<in> set ms) ns"
    proof (rule filter_cong [OF refl])
      fix n' assume n': "n' \<in> set ns"
      have "off_of n' = m \<longleftrightarrow> n' = n"
        unfolding m using off_of_inj [OF isn [OF n'] isn [OF n]] key_eq_imp_eq [OF keys n' n]
        by auto
      then show "(off_of n' \<in> set (m # ms)) = (n' = n \<or> off_of n' \<in> set ms)" by auto
    qed
    moreover have "mset (filter (\<lambda>n'. n' = n \<or> off_of n' \<in> set ms) ns)
        = add_mset n (mset (filter (\<lambda>n'. off_of n' \<in> set ms) ns))"
      using dns n by (rule filter_one_more) (use mnot m in simp)
    ultimately have cnt: "mset (map five_fields (filter (\<lambda>n'. off_of n' \<in> set (m # ms)) ns))
        = add_mset (five_fields n) (mset (map five_fields (filter (\<lambda>n'. off_of n' \<in> set ms) ns)))"
      by (metis mset_map image_mset_add_mset)
    have "mset (fst (foldl pair_step (acc, opened) (m # ms)))
        = mset (fst (foldl pair_step (acc @ [five_fields n], opened(key_of n := None)) ms))"
      by (simp only: foldl_Cons step)
    also have "\<dots> = mset (acc @ [five_fields n])
        + mset (map five_fields (filter (\<lambda>n. off_of n \<in> set ms) ns))"
      by (rule Cons.IH [OF srt dms sub inv])
    also have "\<dots> = mset acc
        + add_mset (five_fields n) (mset (map five_fields (filter (\<lambda>n. off_of n \<in> set ms) ns)))"
      by simp
    also have "\<dots> = mset acc + mset (map five_fields (filter (\<lambda>n. off_of n \<in> set (m # ms)) ns))"
      by (simp only: cnt)
    finally show ?thesis .
  qed
qed

lemma exported_messages:
  assumes "list_all is_Note ns"
  shows "concat (map notes_messages ns) = concat (map (\<lambda>n. [on_of n, off_of n]) ns)"
  using assms by (induction ns) (simp_all add: notes_messages_note)

lemma exported_set:
  assumes "list_all is_Note ns"
  shows "set (notesToMessages ns) = on_of ` set ns \<union> off_of ` set ns"
  using assms by (auto simp: notesToMessages_def set_array_sort exported_messages)

lemma exported_distinct:
  assumes isn0: "list_all is_Note ns" and keys: "distinct (map key_of ns)"
  shows "distinct (notesToMessages ns)"
proof -
  have "distinct (concat (map (\<lambda>n. [on_of n, off_of n]) ns))"
    using assms
  proof (induction ns)
    case Nil
    then show ?case by simp
  next
    case (Cons a ns)
    have a: "is_Note a" and rest: "list_all is_Note ns" using Cons.prems(1) by simp_all
    have k: "key_of a \<notin> key_of ` set ns" and dk: "distinct (map key_of ns)"
      using Cons.prems(2) by simp_all
    have fresh: "\<And>b. b \<in> set ns \<Longrightarrow> on_of a \<noteq> on_of b \<and> off_of a \<noteq> off_of b
        \<and> on_of a \<noteq> off_of b \<and> off_of a \<noteq> on_of b"
    proof -
      fix b assume b: "b \<in> set ns"
      then have ib: "is_Note b" using rest by (simp add: list_all_iff)
      have "key_of a \<noteq> key_of b" using k b by auto
      then show "on_of a \<noteq> on_of b \<and> off_of a \<noteq> off_of b
        \<and> on_of a \<noteq> off_of b \<and> off_of a \<noteq> on_of b"
        using on_of_inj [OF a ib] off_of_inj [OF a ib] on_off_differ [OF a ib]
          on_off_differ [OF ib a] by metis
    qed
    have "on_of a \<noteq> off_of a" using on_off_differ [OF a a] .
    then show ?case using Cons.IH [OF rest dk] fresh by auto
  qed
  then show ?thesis
    by (simp add: notesToMessages_def distinct_array_sort exported_messages [OF isn0])
qed

text \<open>
  Claim C1, as amended. For every list of note records with pairwise distinct
  (pitch, channel) pairs, positive \<open>duration_ticks\<close> and positive \<open>velocity\<close>,
  \<open>_messagesToNotes\<close> of \<open>_notesToMessages\<close> of the list is the same multiset of notes,
  equal in \<open>pitch\<close>, \<open>velocity\<close>, \<open>channel\<close>, \<open>start_tick\<close> and \<open>duration_ticks\<close>. (With
  distinct keys no two notes share a key, so their intervals cannot overlap.)
\<close>

theorem codec_round_trip:
  assumes "distinct_keys ns" and "positive_durations ns" and "positive_velocities ns"
  shows "mset (messagesToNotes (notesToMessages ns)) = mset (map five_fields ns)"
proof -
  have isn0: "list_all is_Note ns" and keys: "distinct (map key_of ns)"
    using assms(1) by (simp_all add: distinct_keys_def)
  have dur: "list_all (\<lambda>e. 0 < duration_ticks e) ns"
    using assms(2) by (simp add: positive_durations_def)
  have vel: "list_all (\<lambda>e. 0 < velocity e) ns"
    using assms(3) by (simp add: positive_velocities_def)
  let ?ms = "notesToMessages ns"
  have srt: "sorted_wrt (\<lambda>a b. msg_time a \<le> msg_time b) ?ms" by (rule notesToMessages_sorted)
  have dms: "distinct ?ms" using isn0 keys by (rule exported_distinct)
  have st: "set ?ms = on_of ` set ns \<union> off_of ` set ns" using isn0 by (rule exported_set)
  have sub: "set ?ms \<subseteq> on_of ` set ns \<union> off_of ` set ns" using st by simp
  have inv: "\<forall>n \<in> set ns. off_of n \<in> set ?ms \<longrightarrow>
      on_of n \<in> set ?ms \<or> Map.empty (key_of n) = Some (on_of n)"
    using st by auto
  have all: "filter (\<lambda>n. off_of n \<in> set ?ms) ns = ns"
    using st by (auto intro: filter_True)
  have "messagesToNotes ?ms = fst (foldl pair_step ([], Map.empty) ?ms)"
    by (simp add: messagesToNotes_def time_sort_sorted_input [OF srt])
  then show ?thesis
    using pairing [OF isn0 keys dur vel srt dms sub inv, of "[]"] by (simp add: all)
qed

theorem codec_round_trip_witness:
  "distinct_keys [Note 60 100 0 5 4 None, Note 62 90 1 2 3 (Some 7)]
   \<and> positive_durations [Note 60 100 0 5 4 None, Note 62 90 1 2 3 (Some 7)]
   \<and> positive_velocities [Note 60 100 0 5 4 None, Note 62 90 1 2 3 (Some 7)]
   \<and> mset (messagesToNotes (notesToMessages [Note 60 100 0 5 4 None, Note 62 90 1 2 3 (Some 7)]))
       = mset [Note 60 100 0 5 4 None, Note 62 90 1 2 3 None]"
proof -
  let ?ns = "[Note 60 100 0 5 4 None, Note 62 90 1 2 3 (Some 7)]"
  have a: "distinct_keys ?ns" by (simp add: distinct_keys_def)
  have b: "positive_durations ?ns" by (simp add: positive_durations_def)
  have c: "positive_velocities ?ns" by (simp add: positive_velocities_def)
  from codec_round_trip [OF a b c] a b c show ?thesis by simp
qed

text \<open>
  Claim C1 as stated fails for a note of velocity 0: its \<open>noteOn\<close> has velocity 0, which
  \<open>_messagesToNotes\<close> reads as a note-off, so the note is not opened and the result is
  empty.
\<close>

theorem codec_round_trip_velocity_zero:
  "distinct_keys [Note 60 0 0 5 4 None]
   \<and> positive_durations [Note 60 0 0 5 4 None]
   \<and> messagesToNotes (notesToMessages [Note 60 0 0 5 4 None]) = []
   \<and> mset (messagesToNotes (notesToMessages [Note 60 0 0 5 4 None]))
       \<noteq> mset (map five_fields [Note 60 0 0 5 4 None])"
proof -
  have e: "messagesToNotes (notesToMessages [Note 60 0 0 5 4 None]) = []"
    by (simp add: messagesToNotes_def notesToMessages_def array_sort_def js_or0_def time_cmp_def
        export_cmp_def)
  show ?thesis by (simp add: e distinct_keys_def positive_durations_def)
qed

text \<open>
  Claim C3 at a failing input. A note that starts at tick 5, an \<open>other\<close> record at tick 5
  and a note that ends at tick 5: the comparator of \<open>_notesToMessages\<close> answers 0 for
  the \<open>other\<close> message against both, and the exported list has the \<open>noteOn\<close> of tick 5
  before the \<open>noteOff\<close> of tick 5.
\<close>

theorem export_tie_break_failing_input:
  "notesToMessages [Note 60 100 0 5 4 None, Other 5 [192, 7] None None, Note 62 100 0 2 3 None]
     = [noteOn 62 100 2 0, noteOn 60 100 5 0, other 5 [192, 7], noteOff 62 0 5 0,
        noteOff 60 0 9 0]"
  by (simp add: notesToMessages_def array_sort_def js_or0_def export_cmp_def)

subsection \<open>The export order without \<open>other\<close> messages\<close>

text \<open>
  The tie-break where it does hold: when no \<open>other\<close> message has the time \<open>t\<close>, no
  \<open>noteOn\<close> of time \<open>t\<close> comes before a \<open>noteOff\<close> of time \<open>t\<close> in the exported list.
\<close>

lemma export_cmp_off_on:
  "msg_time y = msg_time x \<Longrightarrow> is_noteOff y \<Longrightarrow> is_noteOn x \<Longrightarrow> export_cmp y x = -1"
  by (cases y; cases x) (simp_all add: export_cmp_def)

lemma export_cmp_on_off:
  "msg_time y = msg_time x \<Longrightarrow> is_noteOn y \<Longrightarrow> is_noteOff x \<Longrightarrow> export_cmp y x = 1"
  by (cases y; cases x) (simp_all add: export_cmp_def)

lemma on_or_off: "\<not> is_other y \<Longrightarrow> \<not> is_noteOn y \<Longrightarrow> is_noteOff y"
  by (cases y) simp_all

lemma off_not_on: "is_noteOff y \<Longrightarrow> \<not> is_noteOn y"
  by (cases y) simp_all

lemma insert_by_tie_break:
  assumes no_other: "\<forall>m \<in> set (x # acc). msg_time m = t \<longrightarrow> \<not> is_other m"
    and desc: "sorted_wrt (\<lambda>a b. msg_time b \<le> msg_time a) acc"
    and tie: "sorted_wrt (\<lambda>a b. \<not> on_before_off t b a) acc"
  shows "sorted_wrt (\<lambda>a b. \<not> on_before_off t b a) (insert_by export_cmp x acc)"
  using assms
proof (induction acc)
  case Nil
  then show ?case by simp
next
  case (Cons y ys)
  show ?case
  proof (cases "export_cmp y x > 0")
    case True
    have yx: "\<not> on_before_off t x y"
    proof
      assume "on_before_off t x y"
      then have "export_cmp y x = -1"
        by (intro export_cmp_off_on) (simp_all add: on_before_off_def)
      with True show False by simp
    qed
    have ih: "sorted_wrt (\<lambda>a b. \<not> on_before_off t b a) (insert_by export_cmp x ys)"
      using Cons.IH Cons.prems by simp
    have "\<forall>z \<in> set (insert_by export_cmp x ys). \<not> on_before_off t z y"
    proof
      fix z assume "z \<in> set (insert_by export_cmp x ys)"
      then have "z \<in># mset (insert_by export_cmp x ys)" by simp
      then have "z = x \<or> z \<in> set ys" by (simp add: mset_insert_by)
      then show "\<not> on_before_off t z y" using yx Cons.prems(3) by auto
    qed
    then show ?thesis using True ih by simp
  next
    case False
    have "\<forall>z \<in> set (y # ys). \<not> on_before_off t z x"
    proof (intro ballI notI)
      fix z assume z: "z \<in> set (y # ys)" and bad: "on_before_off t z x"
      have bz: "msg_time z = t" "msg_time x = t" "is_noteOn z" "is_noteOff x"
        using bad by (simp_all add: on_before_off_def)
      have zy: "msg_time z \<le> msg_time y" using z Cons.prems(2) by auto
      have yx: "msg_time y \<le> msg_time x" using False by (rule export_cmp_le)
      have ty: "msg_time y = t" using zy yx bz by simp
      have noy: "\<not> is_other y" using Cons.prems(1) ty by simp
      have "\<not> is_noteOn y"
      proof
        assume "is_noteOn y"
        then have "export_cmp y x = 1" using ty bz by (intro export_cmp_on_off) simp_all
        with False show False by simp
      qed
      then have offy: "is_noteOff y" using noy by (intro on_or_off)
      show False
      proof (cases "z = y")
        case True
        then show ?thesis using bz(3) off_not_on [OF offy] by simp
      next
        case False
        then have "z \<in> set ys" using z by simp
        moreover have "on_before_off t z y" using bz ty offy by (simp add: on_before_off_def)
        ultimately show ?thesis using Cons.prems(3) by auto
      qed
    qed
    then show ?thesis using False Cons.prems(3) by simp
  qed
qed

lemma export_loop_tie_break:
  assumes "\<forall>m \<in> set (acc @ xs). msg_time m = t \<longrightarrow> \<not> is_other m"
    and "sorted_wrt (\<lambda>a b. msg_time b \<le> msg_time a) acc"
    and "sorted_wrt (\<lambda>a b. \<not> on_before_off t b a) acc"
  shows "sorted_wrt (\<lambda>a b. \<not> on_before_off t b a)
           (foldl (\<lambda>acc x. insert_by export_cmp x acc) acc xs)"
  using assms
proof (induction xs arbitrary: acc)
  case Nil
  then show ?case by simp
next
  case (Cons x xs)
  have a: "\<forall>m \<in> set (x # acc). msg_time m = t \<longrightarrow> \<not> is_other m" using Cons.prems(1) by simp
  have t1: "sorted_wrt (\<lambda>a b. \<not> on_before_off t b a) (insert_by export_cmp x acc)"
    using a Cons.prems(2) Cons.prems(3) by (rule insert_by_tie_break)
  have d1: "sorted_wrt (\<lambda>a b. msg_time b \<le> msg_time a) (insert_by export_cmp x acc)"
    by (rule insert_by_descending [where key = msg_time])
       (simp_all add: export_cmp_gt export_cmp_le Cons.prems(2))
  have "set (insert_by export_cmp x acc) = set (x # acc)"
    using mset_insert_by [of export_cmp x acc] by (metis mset.simps(2) set_mset_mset)
  then have n1: "\<forall>m \<in> set (insert_by export_cmp x acc @ xs). msg_time m = t \<longrightarrow> \<not> is_other m"
    using Cons.prems(1) by auto
  show ?case using Cons.IH [OF n1 d1 t1] by simp
qed

lemma export_tie_break_without_other:
  assumes "\<forall>m \<in> set (notesToMessages ns). msg_time m = t \<longrightarrow> \<not> is_other m"
  shows "sorted_wrt (\<lambda>a b. \<not> on_before_off t a b) (notesToMessages ns)"
proof -
  let ?xs = "concat (map notes_messages ns)"
  have "\<forall>m \<in> set ([] @ ?xs). msg_time m = t \<longrightarrow> \<not> is_other m"
    using assms by (simp add: notesToMessages_def set_array_sort)
  then have "sorted_wrt (\<lambda>a b. \<not> on_before_off t b a)
           (foldl (\<lambda>acc x. insert_by export_cmp x acc) [] ?xs)"
    by (rule export_loop_tie_break) simp_all
  then show ?thesis
    by (simp add: notesToMessages_def array_sort_def sorted_wrt_rev)
qed


section \<open>Properties of the undo history\<close>

lemma histories_if: "histories (if b then s else t) = (if b then histories s else histories t)"
  by simp

lemma histories_case_option:
  "histories (case x of None \<Rightarrow> a | Some y \<Rightarrow> b y)
     = (case x of None \<Rightarrow> histories a | Some y \<Rightarrow> histories (b y))"
  by (cases x) simp_all

lemma histories_update [simp]:
    "histories (notes_update f0 s) = histories s"
    "histories (nextId_update f1 s) = histories s"
    "histories (ppqn_update f2 s) = histories s"
    "histories (noteSize_update f3 s) = histories s"
    "histories (selectedNotes_update f4 s) = histories s"
    "histories (mode_update f5 s) = histories s"
    "histories (currentChannel_update f6 s) = histories s"
    "histories (playOnClick_update f7 s) = histories s"
    "histories (scrollX_update f8 s) = histories s"
    "histories (scrollY_update f9 s) = histories s"
    "histories (songDurationTicks_update f10 s) = histories s"
    "histories (isPlaying_update f11 s) = histories s"
    "histories (playheadTick_update f12 s) = histories s"
    "histories (lastFrameTime_update f13 s) = histories s"
    "histories (lookaheadEvents_update f14 s) = histories s"
    "histories (isDragging_update f15 s) = histories s"
    "histories (wasAddingNote_update f16 s) = histories s"
    "histories (isResizing_update f17 s) = histories s"
    "histories (isMarqueeSelecting_update f18 s) = histories s"
    "histories (isDraggingVScroll_update f19 s) = histories s"
    "histories (isDraggingHScroll_update f20 s) = histories s"
    "histories (dragStartPos_update f21 s) = histories s"
    "histories (dragStartScroll_update f22 s) = histories s"
    "histories (isPanning_update f23 s) = histories s"
    "histories (isDraggingPlayhead_update f24 s) = histories s"
    "histories (potentialDeselect_update f25 s) = histories s"
    "histories (dragOffsets_update f26 s) = histories s"
    "histories (resizeStartTicks_update f27 s) = histories s"
    "histories (marquee_update f28 s) = histories s"
    "histories (lastMousePos_update f29 s) = histories s"
    "histories (soundOnAdd_update f30 s) = histories s"
    "histories (playheadLastDraggedTime_update f31 s) = histories s"
    "histories (mutedChannels_update f32 s) = histories s"
    "histories (hiddenChannels_update f33 s) = histories s"
    "histories (bpm_update f34 s) = histories s"
    "histories (totalBeats_update f35 s) = histories s"
    "histories (clientWidth_update f36 s) = histories s"
    "histories (clientHeight_update f37 s) = histories s"
    "histories (drawerHeight_update f38 s) = histories s"
    "histories (emitted_update f39 s) = histories s"
  by (simp_all add: histories_def)

lemma hist_recalc [simp]: "histories (recalculateSongDuration s) = histories s"
  by (simp add: recalculateSongDuration_def Let_def)

lemma hist_restore [simp]: "histories (restore es s) = histories s"
  by (simp add: restore_def)

lemma hist_build [simp]: "histories (buildLookaheadEvents s) = histories s"
  by (simp add: buildLookaheadEvents_def)

lemma hist_clamp [simp]: "histories (clampScroll s) = histories s"
  by (simp add: clampScroll_def Let_def)

lemma hist_pause [simp]: "histories (pause s) = histories s"
  by (simp add: pause_def Let_def)

lemma hist_stop [simp]: "histories (stop s) = histories s"
  by (simp add: stop_def)

lemma hist_play [simp]: "histories (play now s) = histories s"
  by (simp add: play_def)

lemma hist_auto [simp]: "histories (autoScroll s) = histories s"
  by (simp add: autoScroll_def Let_def)

lemma hist_playback [simp]: "histories (playbackLoop t s) = histories s"
  by (simp add: playbackLoop_def Let_def histories_if split del: if_split cong: if_cong)

lemma hist_toggleMute [simp]: "histories (toggleMute c s) = histories s"
  by (simp add: toggleMute_def)

lemma hist_load [simp]: "histories (loadFromJson ms q s) = histories s"
  by (simp add: loadFromJson_def)

lemma hist_drag [simp]: "histories (handleNoteDrag pos s) = histories s"
  by (simp add: handleNoteDrag_def)

lemma hist_resize [simp]: "histories (handleNoteResize pos s) = histories s"
  by (simp add: handleNoteResize_def)

lemma hist_marquee [simp]: "histories (handleMarqueeSelect pos s) = histories s"
  by (simp add: handleMarqueeSelect_def split: prod.splits)

lemma hist_scrollbar [simp]: "histories (handleScrollbarMouseMove pos s) = histories s"
  by (simp add: handleScrollbarMouseMove_def Let_def histories_if split del: if_split cong: if_cong)

lemma hist_pan [simp]: "histories (handlePan pos s) = histories s"
  by (simp add: handlePan_def Let_def)

lemma hist_playhead [simp]: "histories (handlePlayheadDrag now pos s) = histories s"
  by (simp add: handlePlayheadDrag_def Let_def histories_if split del: if_split cong: if_cong)

lemma hist_select [simp]: "histories (selectNotesInMarquee s) = histories s"
  by (simp add: selectNotesInMarquee_def Let_def split: prod.splits)

lemma hist_end [simp]: "histories (onInteractionEnd s) = histories s"
  by (simp add: onInteractionEnd_def Let_def histories_if
      split del: if_split split: option.splits cong: if_cong)

lemma hist_move [simp]: "histories (onInteractionMove b r now pos s) = histories s"
  by (simp add: onInteractionMove_def Let_def histories_if split del: if_split cong: if_cong)

text \<open>What \<open>_saveStateForUndo\<close> does to the two stacks.\<close>

lemma hist_save:
  "histories (saveStateForUndo s)
     = (if length (undoHistory s) < MAX_HISTORY then undoHistory s @ [snapshot s]
        else tl (undoHistory s @ [snapshot s]), [])"
  by (simp add: saveStateForUndo_def histories_def Let_def snapshot_def)

lemma snapshot_update [simp]:
  "snapshot (s\<lparr>emitted := e\<rparr>) = snapshot s"
  "snapshot (s\<lparr>selectedNotes := sel\<rparr>) = snapshot s"
  by (simp_all add: snapshot_def)

lemma undoHistory_update [simp]:
  "undoHistory (s\<lparr>emitted := e\<rparr>) = undoHistory s"
  "undoHistory (s\<lparr>selectedNotes := sel\<rparr>) = undoHistory s"
  by simp_all

lemma hist_noteMouseDown:
  "histories (handleNoteMouseDown m n pos s) = histories (saveStateForUndo s)"
  by (simp add: handleNoteMouseDown_def Let_def histories_if split del: if_split cong: if_cong
      split: option.splits entry.splits)

lemma hist_gridMouseDown:
  "histories (handleGridMouseDown pos s)
     = (if mode s = mode_add then histories (saveStateForUndo s) else histories s)"
  by (simp add: handleGridMouseDown_def Let_def histories_if hist_save split del: if_split cong: if_cong)

lemma hist_resizeMouseDown:
  "histories (handleResizeMouseDown n pos s) = histories (saveStateForUndo s)"
  by (simp add: handleResizeMouseDown_def Let_def histories_if split del: if_split cong: if_cong)

lemma hist_delete:
  "histories (deleteNotes c s)
     = (if c \<and> selectedNotes s \<noteq> [] then histories (saveStateForUndo s) else histories s)"
  by (simp add: deleteNotes_def Let_def histories_if split del: if_split cong: if_cong) auto

lemma hist_insertEvent:
  "histories (insertEvent now et ch message s) = histories (saveStateForUndo s)"
  by (simp add: insertEvent_def Let_def split: option.splits)

lemma hist_setTrack:
  "histories (setTrackParameter now ch ty v s)
     = (if ty \<noteq> unknown_parameter then histories (saveStateForUndo s) else histories s)"
  by (cases ty) (simp_all add: setTrackParameter_def Let_def hist_insertEvent hist_save)

lemma hist_undo:
  "histories (undo s)
     = (if undoHistory s = [] then histories s
        else (butlast (undoHistory s), redoHistory s @ [snapshot s]))"
  by (simp add: undo_def Let_def histories_if split del: if_split cong: if_cong)
     (simp add: histories_def restore_def recalculateSongDuration_def Let_def)

lemma hist_redo:
  "histories (redo s)
     = (if redoHistory s = [] then histories s
        else (undoHistory s @ [snapshot s], butlast (redoHistory s)))"
  by (simp add: redo_def Let_def histories_if split del: if_split cong: if_cong)
     (simp add: histories_def restore_def recalculateSongDuration_def Let_def)

lemma undo_is_fst: "undoHistory s = fst (histories s)" and redo_is_snd: "redoHistory s = snd (histories s)"
  by (simp_all add: histories_def)

lemma hist_takes_snapshot:
  "takes_snapshot a s \<Longrightarrow> histories (perform a s) = histories (saveStateForUndo s)"
  by (cases a)
     (simp_all add: hist_noteMouseDown hist_gridMouseDown hist_resizeMouseDown hist_delete
        hist_setTrack)

lemma history_bound_histories:
  "history_bound s = (length (fst (histories s)) + length (snd (histories s)) \<le> MAX_HISTORY)"
  by (simp add: history_bound_def histories_def)

lemma history_bound_save: "history_bound s \<Longrightarrow> history_bound (saveStateForUndo s)"
  by (simp add: history_bound_histories hist_save) (simp add: histories_def)

lemma history_bound_perform: "history_bound s \<Longrightarrow> history_bound (perform a s)"
proof (cases "takes_snapshot a s")
  case True
  assume "history_bound s"
  then have "history_bound (saveStateForUndo s)" by (rule history_bound_save)
  then show ?thesis using hist_takes_snapshot [OF True] by (simp add: history_bound_histories)
next
  case False
  assume b: "history_bound s"
  have "histories (perform a s) = histories s
      \<or> (a = Undo \<and> undoHistory s \<noteq> []
          \<and> histories (perform a s) = (butlast (undoHistory s), redoHistory s @ [snapshot s]))
      \<or> (a = Redo \<and> redoHistory s \<noteq> []
          \<and> histories (perform a s) = (undoHistory s @ [snapshot s], butlast (redoHistory s)))"
    using False
    by (cases a)
       (auto simp: hist_gridMouseDown hist_delete hist_setTrack hist_undo hist_redo)
  then show ?thesis
  proof (elim disjE conjE)
    assume "histories (perform a s) = histories s"
    then show ?thesis using b by (simp add: history_bound_histories)
  next
    assume "undoHistory s \<noteq> []"
      and "histories (perform a s) = (butlast (undoHistory s), redoHistory s @ [snapshot s])"
    then show ?thesis
      using b by (cases "undoHistory s") (simp_all add: history_bound_histories histories_def)
  next
    assume "redoHistory s \<noteq> []"
      and "histories (perform a s) = (undoHistory s @ [snapshot s], butlast (redoHistory s))"
    then show ?thesis
      using b by (cases "redoHistory s") (simp_all add: history_bound_histories histories_def)
  qed
qed

lemma history_bound_run: "history_bound s \<Longrightarrow> history_bound (run as s)"
  unfolding run_def by (induction as arbitrary: s) (simp_all add: history_bound_perform)

lemma history_bound_initial: "history_bound initial_state"
  by (simp add: history_bound_def initial_state_def)

text \<open>
  Claim C7. Every action that takes an undo snapshot leaves the redo stack empty and
  the undo stack with the snapshot pushed, the oldest entry dropped when the stack
  already held \<open>MAX_HISTORY\<close> (25); and in every state the component reaches from
  its initial state, the undo stack holds at most 25 snapshots.
\<close>

theorem undo_history_invariant:
  "(takes_snapshot a s \<longrightarrow>
      redoHistory (perform a s) = []
      \<and> undoHistory (perform a s)
          = (if length (undoHistory s) < MAX_HISTORY then undoHistory s @ [snapshot s]
             else tl (undoHistory s @ [snapshot s])))
   \<and> length (undoHistory (run as initial_state)) \<le> 25"
proof -
  have "history_bound (run as initial_state)"
    using history_bound_initial by (rule history_bound_run)
  then have "length (undoHistory (run as initial_state)) \<le> 25"
    by (simp add: history_bound_def MAX_HISTORY_def)
  moreover have "takes_snapshot a s \<longrightarrow>
      redoHistory (perform a s) = []
      \<and> undoHistory (perform a s)
          = (if length (undoHistory s) < MAX_HISTORY then undoHistory s @ [snapshot s]
             else tl (undoHistory s @ [snapshot s]))"
  proof
    assume "takes_snapshot a s"
    then have "histories (perform a s) = histories (saveStateForUndo s)"
      by (rule hist_takes_snapshot)
    then show "redoHistory (perform a s) = []
      \<and> undoHistory (perform a s)
          = (if length (undoHistory s) < MAX_HISTORY then undoHistory s @ [snapshot s]
             else tl (undoHistory s @ [snapshot s]))"
      by (simp add: undo_is_fst redo_is_snd hist_save)
  qed
  ultimately show ?thesis by blast
qed

theorem undo_history_invariant_witness:
  "takes_snapshot (GridMouseDown (150, 50))
     (initial_state\<lparr>undoHistory := replicate 25 [], redoHistory := [[], []]\<rparr>)
   \<and> redoHistory (perform (GridMouseDown (150, 50))
        (initial_state\<lparr>undoHistory := replicate 25 [], redoHistory := [[], []]\<rparr>)) = []
   \<and> length (undoHistory (perform (GridMouseDown (150, 50))
        (initial_state\<lparr>undoHistory := replicate 25 [], redoHistory := [[], []]\<rparr>))) = 25
   \<and> length (undoHistory (run [GridMouseDown (150, 50), InteractionEnd, Undo, Redo]
        initial_state)) \<le> 25"
proof -
  let ?s = "initial_state\<lparr>undoHistory := replicate 25 [], redoHistory := [[], []]\<rparr>"
  have t: "takes_snapshot (GridMouseDown (150, 50)) ?s" by (simp add: initial_state_def)
  have l: "length (undoHistory ?s) = 25" by simp
  from undo_history_invariant [of "GridMouseDown (150, 50)" ?s
      "[GridMouseDown (150, 50), InteractionEnd, Undo, Redo]"] t l
  show ?thesis by (simp add: MAX_HISTORY_def)
qed

section \<open>Properties of the resize gesture\<close>

lemma update_objects_map:
  assumes idem: "\<And>e. f (f e) = f e"
  shows "foldl (\<lambda>ns n. update_object n f ns) ns sel
       = map (\<lambda>(j, e). if j \<in> set sel then (j, f e) else (j, e)) ns"
proof (induction sel arbitrary: ns)
  case Nil
  then show ?case by (simp add: case_prod_unfold)
next
  case (Cons n sel)
  have "map (\<lambda>(j, e). if j \<in> set sel then (j, f e) else (j, e)) (update_object n f ns)
      = map (\<lambda>(j, e). if j \<in> set (n # sel) then (j, f e) else (j, e)) ns"
    by (auto simp: update_object_def idem)
  then show ?case using Cons.IH [of "update_object n f ns"] by simp
qed

lemma set_original_idem: "set_original (set_original e) = set_original e"
  by (cases e) simp_all

lemma resize_to_idem: "resize_to q dl (resize_to q dl e) = resize_to q dl e"
  by (cases e) (simp_all split: option.splits)

lemma notes_resize:
  "notes (handleNoteResize pos s)
     = map (\<lambda>(j, e). if j \<in> set (selectedNotes s)
                     then (j, resize_to (ppqn s) (resizeDelta s pos) e) else (j, e)) (notes s)"
  by (simp add: handleNoteResize_def update_objects_map [OF resize_to_idem])

lemma resize_frame [simp]:
  "selectedNotes (handleNoteResize pos s) = selectedNotes s"
  "ppqn (handleNoteResize pos s) = ppqn s"
  "scrollX (handleNoteResize pos s) = scrollX s"
  "resizeStartTicks (handleNoteResize pos s) = resizeStartTicks s"
  "length (notes (handleNoteResize pos s)) = length (notes s)"
  by (simp_all add: notes_resize) (simp_all add: handleNoteResize_def)

lemma resizeDelta_frame:
  "ppqn t = ppqn s \<Longrightarrow> scrollX t = scrollX s \<Longrightarrow> resizeStartTicks t = resizeStartTicks s
   \<Longrightarrow> resizeDelta t pos = resizeDelta s pos"
  by (simp add: resizeDelta_def pixelToTick_def getGridPos_def)

lemma save_frame [simp]:
  "notes (saveStateForUndo s) = notes s"
  "ppqn (saveStateForUndo s) = ppqn s"
  "scrollX (saveStateForUndo s) = scrollX s"
  "selectedNotes (saveStateForUndo s) = selectedNotes s"
  by (simp_all add: saveStateForUndo_def Let_def)

lemma resizeMouseDown_selected:
  "selectedNotes (handleResizeMouseDown n pos s)
     = (if n \<in> set (selectedNotes s) then selectedNotes s else [n])"
  by (simp add: handleResizeMouseDown_def Let_def)

lemma resizeMouseDown_frame [simp]:
  "ppqn (handleResizeMouseDown n pos s) = ppqn s"
  "scrollX (handleResizeMouseDown n pos s) = scrollX s"
  "resizeStartTicks (handleResizeMouseDown n pos s) = pixelToTick s (fst (getGridPos s pos))"
  "isResizing (handleResizeMouseDown n pos s)"
  by (simp_all add: handleResizeMouseDown_def Let_def pixelToTick_def getGridPos_def)

lemma notes_resizeMouseDown:
  "notes (handleResizeMouseDown n pos s)
     = map (\<lambda>(j, e). if j \<in> set (selectedNotes (handleResizeMouseDown n pos s))
                     then (j, set_original e) else (j, e)) (notes s)"
  by (simp add: handleResizeMouseDown_def Let_def update_objects_map [OF set_original_idem])

lemma resize_move_entry:
  assumes "k < length (notes s)"
    and "notes s ! k = (i, Note p v c st d' (Some d))"
    and "i \<in> set (selectedNotes s)"
  shows "notes (handleNoteResize pos s) ! k
       = (i, Note p v c st (max (ppqn s / 16) (d + resizeDelta s pos)) (Some d))"
  using assms by (simp add: notes_resize)

lemma resize_moves_frame:
  "selectedNotes (foldl (\<lambda>s pos. handleNoteResize pos s) s ps) = selectedNotes s
   \<and> ppqn (foldl (\<lambda>s pos. handleNoteResize pos s) s ps) = ppqn s
   \<and> scrollX (foldl (\<lambda>s pos. handleNoteResize pos s) s ps) = scrollX s
   \<and> resizeStartTicks (foldl (\<lambda>s pos. handleNoteResize pos s) s ps) = resizeStartTicks s
   \<and> length (notes (foldl (\<lambda>s pos. handleNoteResize pos s) s ps)) = length (notes s)"
  by (induction ps arbitrary: s) simp_all

lemma resize_moves_entry:
  assumes "k < length (notes s)"
    and "notes s ! k = (i, Note p v c st d' (Some d))"
    and "i \<in> set (selectedNotes s)"
  shows "\<exists>d''. notes (foldl (\<lambda>s pos. handleNoteResize pos s) s ps) ! k
       = (i, Note p v c st d'' (Some d))"
  using assms
proof (induction ps arbitrary: s d')
  case Nil
  then show ?case by simp
next
  case (Cons a ps)
  have "notes (handleNoteResize a s) ! k
      = (i, Note p v c st (max (ppqn s / 16) (d + resizeDelta s a)) (Some d))"
    using Cons.prems by (rule resize_move_entry)
  moreover have "k < length (notes (handleNoteResize a s))" using Cons.prems(1) by simp
  moreover have "i \<in> set (selectedNotes (handleNoteResize a s))" using Cons.prems(3) by simp
  ultimately show ?case using Cons.IH [of "handleNoteResize a s"] by simp
qed

text \<open>
  Claim C8. In a resize gesture (pointer-down on a note's trailing edge, then any
  pointer-moves), the last pointer-move leaves every selected note, in place, with
  \<open>duration_ticks = max (ppqn / 16) (originalDuration + (currentTick - anchorTick))\<close>,
  where \<open>originalDuration\<close> is the duration the note had at the pointer-down,
  \<open>anchorTick\<close> the tick under the pointer-down and \<open>currentTick\<close> the tick under the
  move; so its duration is at least \<open>ppqn / 16\<close>.
\<close>

theorem resize_duration_floor:
  assumes k: "k < length (notes s0)"
    and e: "notes s0 ! k = (i, Note p v c st d od)"
    and sel: "i \<in> set (selectedNotes (handleResizeMouseDown n pos0 s0))"
  shows "notes (resize_gesture n pos0 (moves @ [pos]) s0) ! k
           = (i, Note p v c st
                   (max (ppqn s0 / 16)
                        (d + (pixelToTick s0 (fst (getGridPos s0 pos))
                              - pixelToTick s0 (fst (getGridPos s0 pos0)))))
                   (Some d))
       \<and> ppqn s0 / 16 \<le> duration_ticks (snd (notes (resize_gesture n pos0 (moves @ [pos]) s0) ! k))"
proof -
  let ?s1 = "handleResizeMouseDown n pos0 s0"
  let ?s2 = "foldl (\<lambda>s pos. handleNoteResize pos s) ?s1 moves"
  have k1: "k < length (notes ?s1)" using k by (simp add: notes_resizeMouseDown)
  have e1: "notes ?s1 ! k = (i, Note p v c st d (Some d))"
    using k e sel by (simp add: notes_resizeMouseDown)
  from resize_moves_frame [of ?s1 moves]
  have fr: "selectedNotes ?s2 = selectedNotes ?s1" "ppqn ?s2 = ppqn s0" "scrollX ?s2 = scrollX s0"
    "resizeStartTicks ?s2 = pixelToTick s0 (fst (getGridPos s0 pos0))"
    "length (notes ?s2) = length (notes ?s1)"
    by simp_all
  from resize_moves_entry [OF k1 e1 sel, of moves]
  obtain d'' where e2: "notes ?s2 ! k = (i, Note p v c st d'' (Some d))" by blast
  have k2: "k < length (notes ?s2)" using k1 fr(5) by simp
  have s2: "i \<in> set (selectedNotes ?s2)" using sel fr(1) by simp
  have dl: "resizeDelta ?s2 pos
      = pixelToTick s0 (fst (getGridPos s0 pos)) - pixelToTick s0 (fst (getGridPos s0 pos0))"
    using fr by (simp add: resizeDelta_def pixelToTick_def getGridPos_def)
  have "notes (handleNoteResize pos ?s2) ! k
      = (i, Note p v c st (max (ppqn ?s2 / 16) (d + resizeDelta ?s2 pos)) (Some d))"
    using k2 e2 s2 by (rule resize_move_entry)
  then show ?thesis by (simp add: resize_gesture_def dl fr(2))
qed

theorem resize_duration_floor_witness:
  "(0::nat) < length (notes (initial_state\<lparr>notes := [(0, Note 60 100 0 96 96 None)], nextId := 1\<rparr>))
   \<and> notes (initial_state\<lparr>notes := [(0, Note 60 100 0 96 96 None)], nextId := 1\<rparr>) ! 0
        = (0, Note 60 100 0 96 96 None)
   \<and> 0 \<in> set (selectedNotes (handleResizeMouseDown 0 (228, 1100)
        (initial_state\<lparr>notes := [(0, Note 60 100 0 96 96 None)], nextId := 1\<rparr>)))
   \<and> notes (resize_gesture 0 (228, 1100) [(200, 1100), (100, 1100)]
        (initial_state\<lparr>notes := [(0, Note 60 100 0 96 96 None)], nextId := 1\<rparr>)) ! 0
        = (0, Note 60 100 0 96 6 (Some 96))"
proof -
  let ?s = "initial_state\<lparr>notes := [(0, Note 60 100 0 96 96 None)], nextId := 1\<rparr>"
  have k: "(0::nat) < length (notes ?s)" by simp
  have e: "notes ?s ! 0 = (0, Note 60 100 0 96 96 None)" by simp
  have sel: "0 \<in> set (selectedNotes (handleResizeMouseDown 0 (228, 1100) ?s))"
    by (simp add: resizeMouseDown_selected)
  from resize_duration_floor [OF k e sel, of "[(200, 1100)]" "(100, 1100)"] k e sel
  show ?thesis
    by (simp add: initial_state_def pixelToTick_def getGridPos_def beatWidth_def keysWidth_def)
qed

section \<open>Properties of the pointer-up\<close>

lemma selectNotesInMarquee_flags [simp]:
  "isDragging (selectNotesInMarquee s) = isDragging s"
  "isResizing (selectNotesInMarquee s) = isResizing s"
  by (simp_all add: selectNotesInMarquee_def Let_def split: prod.splits)

lemma recalculate_flags [simp]:
  "isDragging (recalculateSongDuration s) = isDragging s"
  "isResizing (recalculateSongDuration s) = isResizing s"
  "isMarqueeSelecting (recalculateSongDuration s) = isMarqueeSelecting s"
  "marquee (recalculateSongDuration s) = marquee s"
  "scrollX (recalculateSongDuration s) = scrollX s"
  "scrollY (recalculateSongDuration s) = scrollY s"
  "notes (recalculateSongDuration s) = notes s"
  "ppqn (recalculateSongDuration s) = ppqn s"
  by (simp_all add: recalculateSongDuration_def Let_def)

lemma end_after_drag_or_resize:
  assumes "isDragging s \<or> isResizing s"
  shows "selectedNotes (onInteractionEnd s) = []"
proof -
  define s1 where "s1 = (case soundOnAdd s of
                  Some p \<Rightarrow> s\<lparr>emitted := emitted s @ [onStopNote p None], soundOnAdd := None\<rparr>
                | None \<Rightarrow> s)"
  define s2 where "s2 = (if potentialDeselect s1 then s1\<lparr>selectedNotes := []\<rparr> else s1)"
  define s3 where "s3 = (if isDragging s2 \<or> isResizing s2 \<or> wasAddingNote s2
                then recalculateSongDuration s2 else s2)"
  define s4 where "s4 = (if isMarqueeSelecting s3 then selectNotesInMarquee s3 else s3)"
  have f1: "isDragging s1 \<or> isResizing s1"
    using assms by (auto simp: s1_def split: option.splits)
  then have f2: "isDragging s2 \<or> isResizing s2" by (auto simp: s2_def)
  then have f3: "isDragging s3 \<or> isResizing s3" by (auto simp: s3_def)
  then have f4: "isDragging s4 \<or> isResizing s4" by (auto simp: s4_def)
  show ?thesis
    unfolding onInteractionEnd_def Let_def s1_def [symmetric] s2_def [symmetric]
      s3_def [symmetric] s4_def [symmetric]
    using f4 by auto
qed

lemma drag_keeps_flag [simp]: "isDragging (handleNoteDrag pos s) = isDragging s"
  by (simp add: handleNoteDrag_def)

lemma drags_keep_flag:
  "isDragging (foldl (\<lambda>s pos. handleNoteDrag pos s) s moves) = isDragging s"
  by (induction moves arbitrary: s) simp_all

lemma noteMouseDown_sets_flag: "isDragging (handleNoteMouseDown m n pos s)"
  by (simp add: handleNoteMouseDown_def Let_def)

lemma resize_keeps_flag [simp]: "isResizing (handleNoteResize pos s) = isResizing s"
  by (simp add: handleNoteResize_def)

lemma resizes_keep_flag:
  "isResizing (foldl (\<lambda>s pos. handleNoteResize pos s) s moves) = isResizing s"
  by (induction moves arbitrary: s) simp_all

lemma resizeMouseDown_sets_flag: "isResizing (handleResizeMouseDown n pos s)"
  by (simp add: handleResizeMouseDown_def Let_def)

lemma selectNotesInMarquee_reads:
  assumes "marquee t = marquee s" "scrollX t = scrollX s" "scrollY t = scrollY s"
    "notes t = notes s" "ppqn t = ppqn s"
  shows "selectedNotes (selectNotesInMarquee t) = selectedNotes (selectNotesInMarquee s)"
proof -
  have "\<And>m e. in_marquee t m e = in_marquee s m e"
  proof -
    fix m :: "rat \<times> rat \<times> rat \<times> rat" and e
    obtain mx my mw mh where m: "m = (mx, my, mw, mh)" by (cases m) auto
    show "in_marquee t m e = in_marquee s m e"
      unfolding m using assms(5) by (cases e) (simp_all add: tickToPixel_def)
  qed
  then show ?thesis
    using assms by (simp add: selectNotesInMarquee_def Let_def split: prod.splits)
qed

lemma end_after_marquee:
  assumes "isMarqueeSelecting s" "\<not> isDragging s" "\<not> isResizing s"
  shows "selectedNotes (onInteractionEnd s) = selectedNotes (selectNotesInMarquee s)"
proof -
  define s1 where "s1 = (case soundOnAdd s of
                  Some p \<Rightarrow> s\<lparr>emitted := emitted s @ [onStopNote p None], soundOnAdd := None\<rparr>
                | None \<Rightarrow> s)"
  define s2 where "s2 = (if potentialDeselect s1 then s1\<lparr>selectedNotes := []\<rparr> else s1)"
  define s3 where "s3 = (if isDragging s2 \<or> isResizing s2 \<or> wasAddingNote s2
                then recalculateSongDuration s2 else s2)"
  have f1: "marquee s1 = marquee s" "scrollX s1 = scrollX s" "scrollY s1 = scrollY s"
    "notes s1 = notes s" "ppqn s1 = ppqn s" "isMarqueeSelecting s1" "\<not> isDragging s1"
    "\<not> isResizing s1"
    using assms by (simp_all add: s1_def split: option.splits)
  have f2: "marquee s2 = marquee s" "scrollX s2 = scrollX s" "scrollY s2 = scrollY s"
    "notes s2 = notes s" "ppqn s2 = ppqn s" "isMarqueeSelecting s2" "\<not> isDragging s2"
    "\<not> isResizing s2"
    using f1 by (simp_all add: s2_def)
  have f3: "marquee s3 = marquee s" "scrollX s3 = scrollX s" "scrollY s3 = scrollY s"
    "notes s3 = notes s" "ppqn s3 = ppqn s" "isMarqueeSelecting s3" "\<not> isDragging s3"
    "\<not> isResizing s3"
    using f2 by (simp_all add: s3_def)
  have "selectedNotes (onInteractionEnd s) = selectedNotes (selectNotesInMarquee s3)"
    unfolding onInteractionEnd_def Let_def s1_def [symmetric] s2_def [symmetric]
      s3_def [symmetric]
    using f3 by simp
  also have "\<dots> = selectedNotes (selectNotesInMarquee s)"
    using f3(1-5) by (rule selectNotesInMarquee_reads)
  finally show ?thesis .
qed

text \<open>
  Claim C10. A pointer-up with \<open>isDragging\<close> or \<open>isResizing\<close> set leaves \<open>selectedNotes\<close>
  empty; so it is empty after a note drag (pointer-down on a note, any drag moves,
  pointer-up) and after a resize gesture. A pointer-up that ends a marquee (with
  neither flag set) leaves in \<open>selectedNotes\<close> the notes \<open>_selectNotesInMarquee\<close> selects.
\<close>

theorem interaction_end_selection:
  "(isDragging s \<or> isResizing s \<longrightarrow> selectedNotes (onInteractionEnd s) = [])
   \<and> selectedNotes (onInteractionEnd
        (foldl (\<lambda>s pos. handleNoteDrag pos s) (handleNoteMouseDown modifier n pos0 s) moves)) = []
   \<and> selectedNotes (onInteractionEnd (resize_gesture n pos0 moves s)) = []
   \<and> (isMarqueeSelecting s \<and> \<not> isDragging s \<and> \<not> isResizing s \<longrightarrow>
        selectedNotes (onInteractionEnd s) = selectedNotes (selectNotesInMarquee s))"
proof -
  have "isDragging (foldl (\<lambda>s pos. handleNoteDrag pos s)
      (handleNoteMouseDown modifier n pos0 s) moves)"
    by (simp add: drags_keep_flag noteMouseDown_sets_flag)
  then have a: "selectedNotes (onInteractionEnd
        (foldl (\<lambda>s pos. handleNoteDrag pos s) (handleNoteMouseDown modifier n pos0 s) moves)) = []"
    by (intro end_after_drag_or_resize) simp
  have "isResizing (resize_gesture n pos0 moves s)"
    by (simp add: resize_gesture_def resizes_keep_flag resizeMouseDown_sets_flag)
  then have b: "selectedNotes (onInteractionEnd (resize_gesture n pos0 moves s)) = []"
    by (intro end_after_drag_or_resize) simp
  show ?thesis using a b end_after_drag_or_resize end_after_marquee by blast
qed


theorem interaction_end_selection_witness:
  "isDragging (handleNoteMouseDown False 0 (200, 1110)
      (initial_state\<lparr>notes := [(0, Note 60 100 0 96 96 None)], nextId := 1\<rparr>))
   \<and> selectedNotes (handleNoteMouseDown False 0 (200, 1110)
      (initial_state\<lparr>notes := [(0, Note 60 100 0 96 96 None)], nextId := 1\<rparr>)) = [0]
   \<and> selectedNotes (onInteractionEnd (handleNoteMouseDown False 0 (200, 1110)
      (initial_state\<lparr>notes := [(0, Note 60 100 0 96 96 None)], nextId := 1\<rparr>))) = []
   \<and> isMarqueeSelecting (handleMarqueeSelect (300, 1200) (handleGridMouseDown (150, 1000)
      (initial_state\<lparr>notes := [(0, Note 60 100 0 96 96 None), (1, Note 10 100 0 0 96 None)],
         nextId := 2, mode := mode_select\<rparr>)))
   \<and> selectedNotes (onInteractionEnd (handleMarqueeSelect (300, 1200)
      (handleGridMouseDown (150, 1000)
        (initial_state\<lparr>notes := [(0, Note 60 100 0 96 96 None), (1, Note 10 100 0 0 96 None)],
           nextId := 2, mode := mode_select\<rparr>)))) = [0]"
proof -
  let ?d = "handleNoteMouseDown False 0 (200, 1110)
      (initial_state\<lparr>notes := [(0, Note 60 100 0 96 96 None)], nextId := 1\<rparr>)"
  let ?m = "handleMarqueeSelect (300, 1200) (handleGridMouseDown (150, 1000)
      (initial_state\<lparr>notes := [(0, Note 60 100 0 96 96 None), (1, Note 10 100 0 0 96 None)],
         nextId := 2, mode := mode_select\<rparr>))"
  have d1: "isDragging ?d" by (simp add: handleNoteMouseDown_def Let_def)
  have d2: "selectedNotes ?d = [0]" by code_simp
  have m0: "isMarqueeSelecting ?m \<and> \<not> isDragging ?m \<and> \<not> isResizing ?m
      \<and> marquee ?m = (150, 1000, 300, 1200) \<and> scrollX ?m = 0 \<and> scrollY ?m = 0 \<and> ppqn ?m = 96
      \<and> notes ?m = [(0, Note 60 100 0 96 96 None), (1, Note 10 100 0 0 96 None)]"
    by code_simp
  have m2: "selectedNotes (selectNotesInMarquee ?m) = [0]" by code_simp
  from interaction_end_selection [of ?d] d1 d2 have a: "selectedNotes (onInteractionEnd ?d) = []"
    by blast
  from interaction_end_selection [of ?m] m0 m2
  have b: "selectedNotes (onInteractionEnd ?m) = [0]" by simp
  from a b d1 d2 m0 show ?thesis by blast
qed

section \<open>Properties of the song duration\<close>

lemma end_step_mono: "acc \<le> foldl end_step acc ns"
proof (induction ns arbitrary: acc)
  case Nil
  then show ?case by simp
next
  case (Cons a ns)
  obtain i e where a: "a = (i, e)" by (cases a)
  have "acc \<le> end_step acc a" unfolding a by (cases e) simp_all
  also have "\<dots> \<le> foldl end_step (end_step acc a) ns" by (rule Cons.IH)
  finally show ?case by simp
qed

lemma end_step_covers:
  "(i, e) \<in> set ns \<Longrightarrow> is_Note e \<Longrightarrow> end_tick e \<le> foldl end_step acc ns"
proof (induction ns arbitrary: acc)
  case Nil
  then show ?case by simp
next
  case (Cons a ns)
  show ?case
  proof (cases "a = (i, e)")
    case True
    have "end_tick e \<le> end_step acc a"
      unfolding True using Cons.prems(2) by (cases e) simp_all
    also have "\<dots> \<le> foldl end_step (end_step acc a) ns" by (rule end_step_mono)
    finally show ?thesis by simp
  next
    case False
    then have "(i, e) \<in> set ns" using Cons.prems(1) by simp
    then show ?thesis using Cons.IH Cons.prems(2) by simp
  qed
qed

lemma recalc_fields [simp]:
  "notes (recalculateSongDuration s) = notes s"
  "songDurationTicks (recalculateSongDuration s) = foldl end_step 0 (notes s)"
  by (simp_all add: recalculateSongDuration_def Let_def)

lemma covers_notes_recalc: "covers_notes (recalculateSongDuration s)"
  by (auto simp: covers_notes_def list_all_iff intro: end_step_covers)

lemma covers_notes_cong:
  "notes t = notes s \<Longrightarrow> songDurationTicks t = songDurationTicks s \<Longrightarrow>
   covers_notes t = covers_notes s"
  by (simp add: covers_notes_def)

lemma select_fields [simp]:
  "notes (selectNotesInMarquee s) = notes s"
  "songDurationTicks (selectNotesInMarquee s) = songDurationTicks s"
  by (simp_all add: selectNotesInMarquee_def Let_def split: prod.splits)

lemma end_fields:
  "notes (onInteractionEnd s) = notes s"
  "songDurationTicks (onInteractionEnd s)
     = (if isDragging s \<or> isResizing s \<or> wasAddingNote s then foldl end_step 0 (notes s)
        else songDurationTicks s)"
proof -
  define s1 where "s1 = (case soundOnAdd s of
                  Some p \<Rightarrow> s\<lparr>emitted := emitted s @ [onStopNote p None], soundOnAdd := None\<rparr>
                | None \<Rightarrow> s)"
  define s2 where "s2 = (if potentialDeselect s1 then s1\<lparr>selectedNotes := []\<rparr> else s1)"
  define s3 where "s3 = (if isDragging s2 \<or> isResizing s2 \<or> wasAddingNote s2
                then recalculateSongDuration s2 else s2)"
  define s4 where "s4 = (if isMarqueeSelecting s3 then selectNotesInMarquee s3 else s3)"
  define s5 where "s5 = (if isDragging s4 \<or> isResizing s4 then s4\<lparr>selectedNotes := []\<rparr> else s4)"
  define s6 where "s6 = (if isPanning s5 then s5\<lparr>isPanning := False\<rparr> else s5)"
  have f1: "notes s1 = notes s" "songDurationTicks s1 = songDurationTicks s"
    "isDragging s1 = isDragging s" "isResizing s1 = isResizing s"
    "wasAddingNote s1 = wasAddingNote s"
    by (simp_all add: s1_def split: option.splits)
  have f2: "notes s2 = notes s" "songDurationTicks s2 = songDurationTicks s"
    "isDragging s2 = isDragging s" "isResizing s2 = isResizing s"
    "wasAddingNote s2 = wasAddingNote s"
    using f1 by (simp_all add: s2_def)
  have f3: "notes s3 = notes s"
    "songDurationTicks s3 = (if isDragging s \<or> isResizing s \<or> wasAddingNote s
        then foldl end_step 0 (notes s) else songDurationTicks s)"
    using f2 by (simp_all add: s3_def)
  have f4: "notes s4 = notes s3" "songDurationTicks s4 = songDurationTicks s3"
    by (simp_all add: s4_def)
  have f5: "notes s5 = notes s4" "songDurationTicks s5 = songDurationTicks s4"
    by (simp_all add: s5_def)
  have f6: "notes s6 = notes s5" "songDurationTicks s6 = songDurationTicks s5"
    by (simp_all add: s6_def)
  have e: "onInteractionEnd s = s6\<lparr>isDraggingPlayhead := False, isDragging := False,
             wasAddingNote := False, isResizing := False, isMarqueeSelecting := False,
             isDraggingVScroll := False, isDraggingHScroll := False,
             potentialDeselect := False\<rparr>"
    unfolding onInteractionEnd_def Let_def s1_def [symmetric] s2_def [symmetric]
      s3_def [symmetric] s4_def [symmetric] s5_def [symmetric] s6_def [symmetric] ..
  show "notes (onInteractionEnd s) = notes s"
    by (simp add: e f6 f5 f4 f3)
  show "songDurationTicks (onInteractionEnd s)
     = (if isDragging s \<or> isResizing s \<or> wasAddingNote s then foldl end_step 0 (notes s)
        else songDurationTicks s)"
    by (simp add: e f6 f5 f4 f3)
qed

lemma covers_notes_end:
  assumes "isDragging s \<or> isResizing s \<or> wasAddingNote s"
  shows "covers_notes (onInteractionEnd s)"
proof -
  have "covers_notes (onInteractionEnd s) = covers_notes (recalculateSongDuration s)"
    using assms by (intro covers_notes_cong) (simp_all add: end_fields)
  then show ?thesis by (simp add: covers_notes_recalc)
qed

lemma covers_notes_recomputes: "recomputes a s \<Longrightarrow> covers_notes (perform a s)"
proof (cases a)
  case InteractionEnd
  assume "recomputes a s"
  then show ?thesis using InteractionEnd by (simp add: covers_notes_end)
next
  case (InteractionMove b r now pos)
  assume "recomputes a s"
  then show ?thesis
    using InteractionMove by (simp add: onInteractionMove_def covers_notes_end)
next
  case (DeleteNotes c)
  assume "recomputes a s"
  then show ?thesis
    using DeleteNotes by (simp add: deleteNotes_def Let_def covers_notes_recalc)
next
  case Undo
  assume "recomputes a s"
  then show ?thesis using Undo by (simp add: undo_def Let_def covers_notes_recalc)
next
  case Redo
  assume "recomputes a s"
  then show ?thesis using Redo by (simp add: redo_def Let_def covers_notes_recalc)
next
  case (LoadFromJson ms q)
  then show ?thesis by (simp add: loadFromJson_def covers_notes_recalc)
qed simp_all

lemma save_fields [simp]:
  "notes (saveStateForUndo s) = notes s"
  "songDurationTicks (saveStateForUndo s) = songDurationTicks s"
  by (simp_all add: saveStateForUndo_def Let_def)

lemma build_fields [simp]:
  "notes (buildLookaheadEvents s) = notes s"
  "songDurationTicks (buildLookaheadEvents s) = songDurationTicks s"
  by (simp_all add: buildLookaheadEvents_def)

lemma insertEvent_fields:
  "songDurationTicks (insertEvent now et ch message s) = songDurationTicks s"
  "set (notes (insertEvent now et ch message s))
     \<subseteq> insert (nextId s,
               Other (if now - playheadLastDraggedTime s < 10000 then playheadTick s else 0)
                 message (Some et) (Some (ch - 1)))
          (set (notes s))"
proof -
  show "songDurationTicks (insertEvent now et ch message s) = songDurationTicks s"
    by (simp add: insertEvent_def Let_def split: option.splits)
  have n: "nextId (saveStateForUndo s) = nextId s" by (simp add: saveStateForUndo_def Let_def)
  show "set (notes (insertEvent now et ch message s))
     \<subseteq> insert (nextId s,
               Other (if now - playheadLastDraggedTime s < 10000 then playheadTick s else 0)
                 message (Some et) (Some (ch - 1)))
          (set (notes s))"
    using set_update_subset_insert [of "notes s"]
    by (auto simp: insertEvent_def Let_def n set_array_sort split: option.splits)
qed

lemma covers_notes_insertEvent:
  assumes "covers_notes s"
  shows "covers_notes (insertEvent now et ch message s)"
proof -
  have "\<And>i e. (i, e) \<in> set (notes (insertEvent now et ch message s)) \<Longrightarrow> is_Note e \<Longrightarrow>
      end_tick e \<le> songDurationTicks s"
  proof -
    fix i e assume m: "(i, e) \<in> set (notes (insertEvent now et ch message s))" and n: "is_Note e"
    from m insertEvent_fields(2) [of now et ch message s] n
    have "(i, e) \<in> set (notes s)" by auto
    then show "end_tick e \<le> songDurationTicks s"
      using assms n by (auto simp: covers_notes_def list_all_iff)
  qed
  then show ?thesis
    by (auto simp: covers_notes_def list_all_iff insertEvent_fields(1))
qed

lemma setTrackParameter_duration:
  "songDurationTicks (setTrackParameter now ch ty v s) = songDurationTicks s"
  by (cases ty) (simp_all add: setTrackParameter_def Let_def insertEvent_fields(1))

lemma covers_notes_emitted [simp]: "covers_notes (s\<lparr>emitted := x\<rparr>) = covers_notes s"
  by (simp add: covers_notes_def)

lemma covers_notes_setTrackParameter:
  "covers_notes s \<Longrightarrow> covers_notes (setTrackParameter now ch ty v s)"
  by (cases ty) (simp_all add: setTrackParameter_def Let_def covers_notes_insertEvent)

lemma gridMouseDown_sets_flag:
  "mode s = mode_add \<Longrightarrow> wasAddingNote (handleGridMouseDown pos s)"
  by (simp add: handleGridMouseDown_def Let_def)

text \<open>
  Claim C6, as amended. \<open>_recalculateSongDuration\<close> leaves \<open>songDurationTicks\<close> at least
  the end tick of every note record. It runs on delete, undo, redo and load, and on the
  pointer-up that ends an add, a move or a resize gesture, so after each of these
  \<open>songDurationTicks\<close> covers every note. Inserting an \<open>other\<close> event with
  \<open>_setTrackParameter\<close> leaves \<open>songDurationTicks\<close> as it was, which keeps it at least
  the end tick of every note.
\<close>

theorem song_duration_covers_notes:
  "covers_notes (recalculateSongDuration s)
   \<and> (recomputes a s \<longrightarrow> covers_notes (perform a s))
   \<and> (mode s = mode_add \<longrightarrow> covers_notes (onInteractionEnd (handleGridMouseDown pos s)))
   \<and> covers_notes (onInteractionEnd
        (foldl (\<lambda>s pos. handleNoteDrag pos s) (handleNoteMouseDown modifier n pos0 s) moves))
   \<and> covers_notes (onInteractionEnd (resize_gesture n pos0 moves s))
   \<and> songDurationTicks (setTrackParameter now ch ty v s) = songDurationTicks s
   \<and> (covers_notes s \<longrightarrow> covers_notes (setTrackParameter now ch ty v s))"
proof -
  have "isDragging (foldl (\<lambda>s pos. handleNoteDrag pos s)
      (handleNoteMouseDown modifier n pos0 s) moves)"
    by (simp add: drags_keep_flag noteMouseDown_sets_flag)
  then have a: "covers_notes (onInteractionEnd
        (foldl (\<lambda>s pos. handleNoteDrag pos s) (handleNoteMouseDown modifier n pos0 s) moves))"
    by (intro covers_notes_end) simp
  have "isResizing (resize_gesture n pos0 moves s)"
    by (simp add: resize_gesture_def resizes_keep_flag resizeMouseDown_sets_flag)
  then have b: "covers_notes (onInteractionEnd (resize_gesture n pos0 moves s))"
    by (intro covers_notes_end) simp
  have c: "mode s = mode_add \<longrightarrow> covers_notes (onInteractionEnd (handleGridMouseDown pos s))"
  proof
    assume "mode s = mode_add"
    then have "wasAddingNote (handleGridMouseDown pos s)" by (rule gridMouseDown_sets_flag)
    then show "covers_notes (onInteractionEnd (handleGridMouseDown pos s))"
      by (intro covers_notes_end) simp
  qed
  show ?thesis
    using a b c covers_notes_recalc covers_notes_recomputes setTrackParameter_duration
      covers_notes_setTrackParameter by blast
qed

theorem song_duration_covers_notes_witness:
  "mode initial_state = mode_add
   \<and> recomputes InteractionEnd (handleGridMouseDown (164, 1110) initial_state)
   \<and> notes (perform InteractionEnd (handleGridMouseDown (164, 1110) initial_state))
        = [(0, Note 60 100 0 96 96 None)]
   \<and> songDurationTicks (perform InteractionEnd (handleGridMouseDown (164, 1110) initial_state))
        = 192
   \<and> covers_notes (perform InteractionEnd (handleGridMouseDown (164, 1110) initial_state))
   \<and> covers_notes (setTrackParameter 0 1 volume 50
        (perform InteractionEnd (handleGridMouseDown (164, 1110) initial_state)))"
proof -
  let ?s = "handleGridMouseDown (164, 1110) initial_state"
  have m: "mode initial_state = mode_add" by (simp add: initial_state_def)
  have r: "recomputes InteractionEnd ?s" by code_simp
  have n: "notes (perform InteractionEnd ?s) = [(0, Note 60 100 0 96 96 None)]" by code_simp
  have d: "songDurationTicks (perform InteractionEnd ?s) = 192" by code_simp
  from song_duration_covers_notes [of ?s InteractionEnd]
  have c1: "covers_notes (perform InteractionEnd ?s)" using r by blast
  from song_duration_covers_notes [of "perform InteractionEnd ?s" _ _ _ _ _ _ 0 1 volume 50] c1
  have c2: "covers_notes (setTrackParameter 0 1 volume 50 (perform InteractionEnd ?s))"
    by blast
  from m r n d c1 c2 show ?thesis by blast
qed

text \<open>
  Claim C6 as stated fails for an \<open>other\<close> event past the last note: after a playhead
  drag to tick 96 in the empty timeline, a volume change is stored at tick 96 and
  \<open>songDurationTicks\<close> is still 0.
\<close>

theorem song_duration_other_event:
  "notes (run [PlayheadDrag 1000 (164, 10), SetTrackParameter 2000 1 volume 50] initial_state)
     = [(0, Other 96 [176, 7, 50] (Some volumeChange) (Some 0))]
   \<and> songDurationTicks
        (run [PlayheadDrag 1000 (164, 10), SetTrackParameter 2000 1 volume 50] initial_state) = 0
   \<and> \<not> covers_all
        (run [PlayheadDrag 1000 (164, 10), SetTrackParameter 2000 1 volume 50] initial_state)"
proof -
  let ?s = "run [PlayheadDrag 1000 (164, 10), SetTrackParameter 2000 1 volume 50] initial_state"
  have n: "notes ?s = [(0, Other 96 [176, 7, 50] (Some volumeChange) (Some 0))]" by code_simp
  have d: "songDurationTicks ?s = 0" by code_simp
  have "\<not> covers_all ?s" unfolding covers_all_def n d by simp
  with n d show ?thesis by blast
qed

section \<open>Properties of the playback frame\<close>

lemma payload_simps [simp]:
  "payload (set_playing b e) = payload e"
  "tick (payload e) = tick e"
  "is_muted M (payload e) = is_muted M e"
  "tick (set_playing b e) = tick e"
  by (cases e; simp add: payload_def)+

lemma update_first_payload:
  "map payload (update_first P (set_playing b) evs) = map payload evs"
  by (induction evs) simp_all

lemma update_first_length [simp]: "length (update_first P f evs) = length evs"
  by (induction evs) simp_all

lemma fire_result:
  "fire e (evs, calls) = (evs', calls') \<Longrightarrow>
   map payload evs' = map payload evs \<and> length evs' = length evs
   \<and> calls' = calls @ [fire_call e]"
  by (cases e) (auto simp: update_first_payload)

lemma call_payload_fire: "call_payload (fire_call e) = fire_call (payload e)"
  by (cases e) (simp_all add: payload_def)

lemma due_payload: "due t s (payload e) = due t s e"
  by (simp add: due_def)

lemma payload_nth:
  "map payload evs = map payload evs0 \<Longrightarrow> k < length evs0 \<Longrightarrow> payload (evs ! k) = payload (evs0 ! k)"
  by (metis length_map nth_map)

lemma visit_result:
  assumes inv: "map payload evs = map payload evs0" and k: "k < length evs0"
    and v: "visit (playheadTick s) (playheadTick s + elapsedTicks s t) (mutedChannels s) k
              (evs, calls) = (evs', calls')"
  shows "map payload evs' = map payload evs0
       \<and> map call_payload calls'
           = map call_payload calls
             @ map (\<lambda>e. fire_call (payload e)) (filter (due t s) [evs0 ! k])"
proof -
  have pk: "payload (evs ! k) = payload (evs0 ! k)" using inv k by (rule payload_nth)
  have d: "due t s (evs ! k) = due t s (evs0 ! k)"
    using pk due_payload by metis
  show ?thesis
  proof (cases "due t s (evs ! k)")
    case True
    then have "fire (evs ! k) (evs, calls) = (evs', calls')"
      using v by (simp add: visit_def due_def Let_def)
    from fire_result [OF this] inv True d pk show ?thesis
      by (simp add: call_payload_fire)
  next
    case False
    then have "(evs', calls') = (evs, calls)"
      using v by (auto simp: visit_def due_def Let_def split: if_splits)
    then show ?thesis using inv False d by simp
  qed
qed

lemma visits_result:
  assumes "map payload evs = map payload evs0" and "n = length evs0" and "k \<le> n"
  shows "map payload (fst (fold (visit (playheadTick s) (playheadTick s + elapsedTicks s t)
                                  (mutedChannels s)) [k ..< n] (evs, calls)))
           = map payload evs0
       \<and> map call_payload (snd (fold (visit (playheadTick s)
                                  (playheadTick s + elapsedTicks s t)
                                  (mutedChannels s)) [k ..< n] (evs, calls)))
           = map call_payload calls
             @ map (\<lambda>e. fire_call (payload e)) (filter (due t s) (drop k evs0))"
  using assms
proof (induction "n - k" arbitrary: k evs calls)
  case 0
  then show ?case by simp
next
  case (Suc d)
  let ?v = "visit (playheadTick s) (playheadTick s + elapsedTicks s t) (mutedChannels s)"
  have kn: "k < n" using Suc.hyps(2) by simp
  obtain evs' calls' where v: "?v k (evs, calls) = (evs', calls')" by (cases "?v k (evs, calls)")
  have k0: "k < length evs0" using kn Suc.prems(2) by simp
  from visit_result [OF Suc.prems(1) k0 v]
  have inv': "map payload evs' = map payload evs0"
    and c': "map call_payload calls' = map call_payload calls
             @ map (\<lambda>e. fire_call (payload e)) (filter (due t s) [evs0 ! k])"
    by simp_all
  have d: "d = n - Suc k" using Suc.hyps(2) by simp
  have sk: "Suc k \<le> n" using kn by simp
  note ih = Suc.hyps(1) [OF d inv' Suc.prems(2) sk, of calls']
  have up: "[k ..< n] = k # [Suc k ..< n]" using kn by (simp add: upt_conv_Cons)
  have dr: "drop k evs0 = evs0 ! k # drop (Suc k) evs0"
    using k0 by (simp add: Cons_nth_drop_Suc)
  show ?case
    unfolding up dr using ih c' by (simp add: v)
qed

lemma fire_due_result:
  "map payload (fst (fire_due t s)) = map payload (lookaheadEvents s)
   \<and> map call_payload (snd (fire_due t s))
       = map (\<lambda>e. fire_call (payload e)) (filter (due t s) (lookaheadEvents s))"
  using visits_result [of "lookaheadEvents s" "lookaheadEvents s" "length (lookaheadEvents s)" 0
      s t "[]"]
  by (simp add: fire_due_def)

lemma tick_sorted_payload:
  "map payload evs = map payload evs0 \<Longrightarrow> tick_sorted evs = tick_sorted evs0"
proof -
  assume a: "map payload evs = map payload evs0"
  have "map tick evs = map (tick \<circ> payload) evs" by simp
  also have "\<dots> = map tick (map payload evs)" by simp
  also have "\<dots> = map tick (map payload evs0)" using a by simp
  also have "\<dots> = map tick evs0" by simp
  finally show ?thesis by (simp add: tick_sorted_def)
qed

lemma build_tick_sorted: "tick_sorted (lookaheadEvents (buildLookaheadEvents s))"
proof -
  have "sorted_wrt (\<lambda>a b. tick a \<le> tick b) (array_sort tick_cmp (concat (map look_events (notes s))))"
    by (rule array_sort_sorted) (simp_all add: tick_cmp_def)
  then show ?thesis
    by (simp add: buildLookaheadEvents_def tick_sorted_def sorted_map)
qed

lemma playback_fields:
  assumes "isPlaying s"
  shows "lookaheadEvents (playbackLoop t s) = fst (fire_due t s)"
    and "emitted (playbackLoop t s)
           = emitted s @ snd (fire_due t s)
             @ (if past_end t s then concat (map pause_call (fst (fire_due t s))) else [])"
    and "playheadTick (playbackLoop t s)
           = (if past_end t s then 0 else playheadTick s + elapsedTicks s t)"
    and "isPlaying (playbackLoop t s) = (\<not> past_end t s)"
proof -
  define s1 where "s1 = s\<lparr>lastFrameTime := t, lookaheadEvents := fst (fire_due t s),
                   emitted := emitted s @ snd (fire_due t s),
                   playheadTick := playheadTick s + elapsedTicks s t\<rparr>"
  define s2 where "s2 = clampScroll (autoScroll s1)"
  have f2: "lookaheadEvents s2 = fst (fire_due t s)"
    "emitted s2 = emitted s @ snd (fire_due t s)"
    "playheadTick s2 = playheadTick s + elapsedTicks s t"
    "songDurationTicks s2 = songDurationTicks s"
    "isPlaying s2"
    using assms by (simp_all add: s2_def s1_def clampScroll_def autoScroll_def Let_def)
  have p: "playbackLoop t s = (if playheadTick s2 > songDurationTicks s2 then stop s2 else s2)"
    using assms unfolding playbackLoop_def Let_def s1_def [symmetric] s2_def [symmetric]
    by simp
  show "lookaheadEvents (playbackLoop t s) = fst (fire_due t s)"
    by (simp add: p f2 stop_def pause_def Let_def)
  show "emitted (playbackLoop t s)
           = emitted s @ snd (fire_due t s)
             @ (if past_end t s then concat (map pause_call (fst (fire_due t s))) else [])"
    by (simp add: p f2 stop_def pause_def Let_def past_end_def)
  show "playheadTick (playbackLoop t s)
           = (if past_end t s then 0 else playheadTick s + elapsedTicks s t)"
    by (simp add: p f2 stop_def pause_def Let_def past_end_def)
  show "isPlaying (playbackLoop t s) = (\<not> past_end t s)"
    by (simp add: p f2 stop_def pause_def Let_def past_end_def)
qed

lemma look_if: "lookaheadEvents (if b then s else t) = (if b then lookaheadEvents s else lookaheadEvents t)"
  by simp

lemma look_frames [simp]:
  "lookaheadEvents (recalculateSongDuration s) = lookaheadEvents s"
  "lookaheadEvents (restore es s) = lookaheadEvents s"
  "lookaheadEvents (clampScroll s) = lookaheadEvents s"
  "lookaheadEvents (saveStateForUndo s) = lookaheadEvents s"
  "lookaheadEvents (pause s) = lookaheadEvents s"
  "lookaheadEvents (stop s) = lookaheadEvents s"
  "lookaheadEvents (toggleMute c s) = lookaheadEvents s"
  "lookaheadEvents (handleNoteDrag pos s) = lookaheadEvents s"
  "lookaheadEvents (handleNoteResize pos s) = lookaheadEvents s"
  "lookaheadEvents (handlePan pos s) = lookaheadEvents s"
  "lookaheadEvents (selectNotesInMarquee s) = lookaheadEvents s"
  "lookaheadEvents (handleMarqueeSelect pos s) = lookaheadEvents s"
  by (simp_all add: recalculateSongDuration_def restore_def clampScroll_def saveStateForUndo_def
      pause_def stop_def toggleMute_def handleNoteDrag_def handleNoteResize_def handlePan_def
      selectNotesInMarquee_def handleMarqueeSelect_def Let_def split: prod.splits)

lemma look_undo_redo_load [simp]:
  "lookaheadEvents (undo s) = lookaheadEvents s"
  "lookaheadEvents (redo s) = lookaheadEvents s"
  "lookaheadEvents (loadFromJson ms q s) = lookaheadEvents s"
  by (simp_all add: undo_def redo_def loadFromJson_def Let_def)

lemma look_scrollbar [simp]:
  "lookaheadEvents (handleScrollbarMouseMove pos s) = lookaheadEvents s"
  by (simp add: handleScrollbarMouseMove_def Let_def look_if split del: if_split cong: if_cong)

lemma look_end [simp]: "lookaheadEvents (onInteractionEnd s) = lookaheadEvents s"
  by (simp add: onInteractionEnd_def Let_def look_if
      split del: if_split split: option.splits cong: if_cong)

lemma look_noteMouseDown [simp]:
  "lookaheadEvents (handleNoteMouseDown m n pos s) = lookaheadEvents s"
  by (simp add: handleNoteMouseDown_def Let_def look_if split del: if_split
      split: option.splits entry.splits cong: if_cong)

lemma look_gridMouseDown [simp]:
  "lookaheadEvents (handleGridMouseDown pos s) = lookaheadEvents s"
  by (simp add: handleGridMouseDown_def Let_def look_if split del: if_split cong: if_cong)

lemma look_resizeMouseDown [simp]:
  "lookaheadEvents (handleResizeMouseDown n pos s) = lookaheadEvents s"
  by (simp add: handleResizeMouseDown_def Let_def look_if split del: if_split cong: if_cong)

lemma look_sorted_same: "lookaheadEvents t = lookaheadEvents s \<Longrightarrow> look_sorted t = look_sorted s"
  by (simp add: look_sorted_def)

lemma look_sorted_build [simp]: "look_sorted (buildLookaheadEvents s)"
  by (simp add: look_sorted_def build_tick_sorted)

lemma look_sorted_playhead: "look_sorted s \<Longrightarrow> look_sorted (handlePlayheadDrag now pos s)"
proof -
  assume a: "look_sorted s"
  let ?s1 = "s\<lparr>playheadTick := max 0 ((fst pos - keysWidth + scrollX s) / beatWidth * ppqn s)\<rparr>"
  have "lookaheadEvents (handlePlayheadDrag now pos s)
      = (if isPlaying s then lookaheadEvents (buildLookaheadEvents ?s1) else lookaheadEvents s)"
    by (simp add: handlePlayheadDrag_def Let_def)
  then show ?thesis
    using a look_sorted_build [of ?s1] by (simp add: look_sorted_def)
qed

lemma look_sorted_play: "look_sorted s \<Longrightarrow> look_sorted (play now s)"
  by (simp add: play_def)

lemma look_sorted_playback: "look_sorted s \<Longrightarrow> look_sorted (playbackLoop t s)"
proof (cases "isPlaying s")
  case True
  assume a: "look_sorted s"
  have "map payload (fst (fire_due t s)) = map payload (lookaheadEvents s)"
    using fire_due_result [of t s] by (rule conjunct1)
  then have "tick_sorted (fst (fire_due t s)) = tick_sorted (lookaheadEvents s)"
    by (rule tick_sorted_payload)
  then show ?thesis using a by (simp add: look_sorted_def playback_fields(1) [OF True])
next
  case False
  assume "look_sorted s"
  then show ?thesis using False by (simp add: playbackLoop_def)
qed

lemma look_sorted_delete: "look_sorted s \<Longrightarrow> look_sorted (deleteNotes c s)"
  by (simp add: deleteNotes_def Let_def look_sorted_def tick_sorted_def)

lemma look_sorted_insertEvent: "look_sorted (insertEvent now et ch message s)"
  by (simp add: insertEvent_def Let_def split: option.splits)

lemma look_sorted_setTrack: "look_sorted s \<Longrightarrow> look_sorted (setTrackParameter now ch ty v s)"
  by (cases ty) (simp_all add: setTrackParameter_def Let_def look_sorted_insertEvent)

lemma look_sorted_move: "look_sorted s \<Longrightarrow> look_sorted (onInteractionMove b r now pos s)"
proof -
  assume a: "look_sorted s"
  have p: "look_sorted (s\<lparr>potentialDeselect := False\<rparr>)" using a by (simp add: look_sorted_def)
  have "look_sorted (handlePlayheadDrag now pos (s\<lparr>potentialDeselect := False\<rparr>))"
    using p by (rule look_sorted_playhead)
  then show ?thesis
    using a by (simp add: onInteractionMove_def Let_def look_sorted_def)
qed

lemma look_sorted_perform: "look_sorted s \<Longrightarrow> look_sorted (perform a s)"
  by (cases a)
     (simp_all add: look_sorted_playhead look_sorted_play look_sorted_playback
        look_sorted_delete look_sorted_setTrack look_sorted_move,
      simp_all add: look_sorted_def)

lemma look_sorted_run: "look_sorted s \<Longrightarrow> look_sorted (run as s)"
  unfolding run_def by (induction as arbitrary: s) (simp_all add: look_sorted_perform)

lemma look_sorted_reachable: "tick_sorted (lookaheadEvents (run as initial_state))"
proof -
  have "look_sorted initial_state" by (simp add: look_sorted_def initial_state_def tick_sorted_def)
  then have "look_sorted (run as initial_state)" by (rule look_sorted_run)
  then show ?thesis by (simp add: look_sorted_def)
qed

text \<open>
  Claim C4. In a playback frame (with \<open>isPlaying\<close> set) the scheduler makes, in the order
  of the lookahead list, the sink call of exactly those lookahead events whose tick
  lies in \<open>[playheadTick, playheadTick + elapsedTicks)\<close> and whose channel is not muted
  (the calls carry the events; they are compared without the \<open>isPlaying\<close> flag). When
  the list is in tick order, the ticks of the fired events do not decrease;
  \<open>_buildLookaheadEvents\<close> establishes that order, a frame keeps it, and it holds in
  every state the component reaches from its initial one. Then \<open>playheadTick\<close> is advanced
  by \<open>elapsedTicks\<close>; when it then exceeds \<open>songDurationTicks\<close>, playback stops
  (\<open>isPlaying\<close> is cleared, with the note-offs of \<open>pause\<close>) and the playhead is 0.
\<close>

theorem playback_frame:
  "(isPlaying s \<longrightarrow>
      emitted (playbackLoop t s)
        = emitted s @ snd (fire_due t s)
          @ (if past_end t s then concat (map pause_call (fst (fire_due t s))) else [])
      \<and> map call_payload (snd (fire_due t s))
          = map (\<lambda>e. fire_call (payload e)) (filter (due t s) (lookaheadEvents s))
      \<and> playheadTick (playbackLoop t s)
          = (if past_end t s then 0 else playheadTick s + elapsedTicks s t)
      \<and> isPlaying (playbackLoop t s) = (\<not> past_end t s)
      \<and> (tick_sorted (lookaheadEvents s) \<longrightarrow>
           sorted (map tick (filter (due t s) (lookaheadEvents s)))
           \<and> tick_sorted (lookaheadEvents (playbackLoop t s))))
   \<and> tick_sorted (lookaheadEvents (buildLookaheadEvents s))
   \<and> tick_sorted (lookaheadEvents (run as initial_state))"
proof (intro conjI impI)
  assume p: "isPlaying s"
  show "emitted (playbackLoop t s)
        = emitted s @ snd (fire_due t s)
          @ (if past_end t s then concat (map pause_call (fst (fire_due t s))) else [])"
    using p by (rule playback_fields(2))
  show "map call_payload (snd (fire_due t s))
          = map (\<lambda>e. fire_call (payload e)) (filter (due t s) (lookaheadEvents s))"
    using fire_due_result [of t s] by (rule conjunct2)
  show "playheadTick (playbackLoop t s)
          = (if past_end t s then 0 else playheadTick s + elapsedTicks s t)"
    using p by (rule playback_fields(3))
  show "isPlaying (playbackLoop t s) = (\<not> past_end t s)"
    using p by (rule playback_fields(4))
  assume srt: "tick_sorted (lookaheadEvents s)"
  show "sorted (map tick (filter (due t s) (lookaheadEvents s)))"
    using srt by (simp add: tick_sorted_def sorted_map sorted_wrt_filter)
  have "map payload (fst (fire_due t s)) = map payload (lookaheadEvents s)"
    using fire_due_result [of t s] by (rule conjunct1)
  then have "tick_sorted (fst (fire_due t s)) = tick_sorted (lookaheadEvents s)"
    by (rule tick_sorted_payload)
  then show "tick_sorted (lookaheadEvents (playbackLoop t s))"
    using srt by (simp add: playback_fields(1) [OF p])
next
  show "tick_sorted (lookaheadEvents (buildLookaheadEvents s))" by (rule build_tick_sorted)
next
  show "tick_sorted (lookaheadEvents (run as initial_state))" by (rule look_sorted_reachable)
qed

theorem playback_frame_witness:
  "isPlaying (play 0 (initial_state\<lparr>notes := [(0, Note 60 100 0 0 96 None),
        (1, Note 62 100 1 24 96 None)], nextId := 2, songDurationTicks := 120,
        mutedChannels := {1}\<rparr>))
   \<and> tick_sorted (lookaheadEvents (play 0 (initial_state\<lparr>notes := [(0, Note 60 100 0 0 96 None),
        (1, Note 62 100 1 24 96 None)], nextId := 2, songDurationTicks := 120,
        mutedChannels := {1}\<rparr>)))
   \<and> emitted (playbackLoop 250 (play 0 (initial_state\<lparr>notes := [(0, Note 60 100 0 0 96 None),
        (1, Note 62 100 1 24 96 None)], nextId := 2, songDurationTicks := 120,
        mutedChannels := {1}\<rparr>)))
       = [onPlayNote_event (LnoteOn 0 60 100 0 False)]
   \<and> playheadTick (playbackLoop 250 (play 0 (initial_state\<lparr>notes := [(0, Note 60 100 0 0 96 None),
        (1, Note 62 100 1 24 96 None)], nextId := 2, songDurationTicks := 120,
        mutedChannels := {1}\<rparr>))) = 48
   \<and> isPlaying (playbackLoop 250 (play 0 (initial_state\<lparr>notes := [(0, Note 60 100 0 0 96 None),
        (1, Note 62 100 1 24 96 None)], nextId := 2, songDurationTicks := 120,
        mutedChannels := {1}\<rparr>)))"
proof -
  let ?s = "play 0 (initial_state\<lparr>notes := [(0, Note 60 100 0 0 96 None),
        (1, Note 62 100 1 24 96 None)], nextId := 2, songDurationTicks := 120,
        mutedChannels := {1}\<rparr>)"
  have p: "isPlaying ?s" by code_simp
  have l: "lookaheadEvents ?s = [LnoteOn 0 60 100 0 False, LnoteOn 24 62 100 1 False,
      LnoteOff 96 60 0, LnoteOff 120 62 1]" by code_simp
  have srt: "tick_sorted (lookaheadEvents ?s)" unfolding l by (simp add: tick_sorted_def)
  have e0: "emitted ?s = []" by code_simp
  have pe: "\<not> past_end 250 ?s" by code_simp
  have el: "playheadTick ?s + elapsedTicks ?s 250 = 48" by code_simp
  have c: "snd (fire_due 250 ?s) = [onPlayNote_event (LnoteOn 0 60 100 0 False)]" by code_simp
  from playback_frame [of ?s 250] p
  have "emitted (playbackLoop 250 ?s)
        = emitted ?s @ snd (fire_due 250 ?s)
          @ (if past_end 250 ?s then concat (map pause_call (fst (fire_due 250 ?s))) else [])"
    and "playheadTick (playbackLoop 250 ?s)
          = (if past_end 250 ?s then 0 else playheadTick ?s + elapsedTicks ?s 250)"
    and "isPlaying (playbackLoop 250 ?s) = (\<not> past_end 250 ?s)"
    by blast+
  then have "emitted (playbackLoop 250 ?s) = [onPlayNote_event (LnoteOn 0 60 100 0 False)]"
    and "playheadTick (playbackLoop 250 ?s) = 48"
    and "isPlaying (playbackLoop 250 ?s)"
    using e0 pe el c by simp_all
  with p srt show ?thesis by blast
qed

section \<open>Stopping playback\<close>

lemma stop_calls:
  "emitted (stop s) = emitted s @ concat (map pause_call (lookaheadEvents s))
   \<and> \<not> isPlaying (stop s) \<and> playheadTick (stop s) = 0"
  by (simp add: stop_def pause_def Let_def)

text \<open>
  Claim C5 at a failing input. \<open>stop\<close> emits \<open>onStopNote\<close> for the lookahead events
  whose \<open>isPlaying\<close> flag is set and nothing else (lemma \<open>stop_calls\<close>). One note at tick
  0: \<open>play\<close>, a frame of 250 ms (the note-on is sent), a drag of the playhead while
  playing (the lookahead list is rebuilt, all flags clear), then \<open>stop\<close>. The sink has
  received the note-on and nothing after it. The last conjunct is \<open>stop\<close> on a list
  whose flags are clear: nothing is emitted.
\<close>

theorem stop_leaves_note_sounding:
  "emitted (run [Play 0, PlaybackLoop 250] (initial_state\<lparr>notes := [(0, Note 60 100 0 0 96 None)],
       nextId := 1, songDurationTicks := 96\<rparr>))
     = [onPlayNote_event (LnoteOn 0 60 100 0 False)]
   \<and> emitted (run [Play 0, PlaybackLoop 250, PlayheadDrag 300 (132, 10), Stop]
       (initial_state\<lparr>notes := [(0, Note 60 100 0 0 96 None)],
          nextId := 1, songDurationTicks := 96\<rparr>))
     = [onPlayNote_event (LnoteOn 0 60 100 0 False)]
   \<and> emitted (stop (initial_state\<lparr>lookaheadEvents := [LnoteOn 0 60 100 0 False,
         LnoteOff 96 60 0], isPlaying := True\<rparr>)) = []"
  by code_simp

section \<open>Properties of the event broker\<close>

lemma processResult_protocol:
  "processResult (Some (Result capture ctl)) u = u\<lparr>capturedControl := ctl\<rparr>"
  "capturedControl (processResult (Some (Result release ctl)) u) = None"
  "processResult (Some (Result persist ctl)) u = u"
  "processResult None u = u"
  by (simp_all add: processResult_def)

lemma processResult_other_fields [simp]:
  "delivered (processResult r u) = delivered u"
  "controls (processResult r u) = controls u"
  by (cases r; simp add: processResult_def split: result.splits action_kind.splits)+

lemma deliver_log:
  "k < length (controls u) \<Longrightarrow> delivered (fst (deliver k e u)) = delivered u @ [(k, e)]"
  by (simp add: deliver_def split: prod.splits)

lemma dispatch_captured_log:
  assumes "capturedControl u = Some k" and "k < length (controls u)"
  shows "delivered (dispatchEvent e target u)
       = delivered u @ [(k, e\<lparr>event_owner := owner_control k\<rparr>)]"
  using assms deliver_log [of k u "e\<lparr>event_owner := owner_control k\<rparr>"]
  by (auto simp: dispatchEvent_def split: prod.splits)

text \<open>
  A pointer event outside the drawer while a control is captured: one call, to the
  captured control; the event it receives names that control as its owner.
\<close>

lemma outside_click_delivery:
  assumes c: "capturedControl u = Some k" and k: "k < length (controls u)"
    and out: "\<not> event_y e < calculatedHeight u"
    and out': "\<not> event_y e + scrollOffsetY u < calculatedHeight u"
  shows "\<exists>u'. Drawer_handleEvent e u = Some u'
       \<and> delivered u' = delivered u
           @ [(k, e\<lparr>event_x := event_x e + scrollOffsetX u,
                    event_y := event_y e + scrollOffsetY u,
                    event_owner := owner_control k\<rparr>)]"
  using c out out'
  by (simp add: Drawer_handleEvent_def isPointInBounds_def Let_def
      dispatch_captured_log [OF c k])

text \<open>
  Claim C9 at a failing input. The tempo control is opened by a pointer-down on its
  button and captured. A pointer-down at (400, 300), outside the drawer, goes through
  \<open>Drawer.handleEvent\<close>, which builds the outside click with \<open>owner: null\<close> and hands it
  to \<open>dispatchEvent\<close>; \<open>dispatchEvent\<close> replaces the owner by the captured control. The
  one event the control receives names the control itself as owner, the control's
  test for an outside click (\<open>owner !== this\<close>) fails, it stays open and stays captured.
  \<open>handleGlobalClick\<close>, which passes \<open>owner: null\<close> to the control directly, closes it
  and releases the capture.
\<close>

theorem outside_click_owner:
  "capturedControl (dispatchEvent (pointer_down_at 30 60) (Some 0) initial_ui) = Some 0
   \<and> map isOpen (controls (dispatchEvent (pointer_down_at 30 60) (Some 0) initial_ui)) = [True]
   \<and> map_option delivered
        (Drawer_handleEvent (pointer_down_at 400 300)
           (dispatchEvent (pointer_down_at 30 60) (Some 0) initial_ui))
       = Some [(0, (pointer_down_at 30 60)\<lparr>event_owner := owner_control 0\<rparr>),
               (0, (pointer_down_at 400 300)\<lparr>event_owner := owner_control 0\<rparr>)]
   \<and> map_option capturedControl
        (Drawer_handleEvent (pointer_down_at 400 300)
           (dispatchEvent (pointer_down_at 30 60) (Some 0) initial_ui))
       = Some (Some 0)
   \<and> map_option (map isOpen \<circ> controls)
        (Drawer_handleEvent (pointer_down_at 400 300)
           (dispatchEvent (pointer_down_at 30 60) (Some 0) initial_ui))
       = Some [True]
   \<and> capturedControl (handleGlobalClick (pointer_down_at 400 300)
        (dispatchEvent (pointer_down_at 30 60) (Some 0) initial_ui)) = None
   \<and> map isOpen (controls (handleGlobalClick (pointer_down_at 400 300)
        (dispatchEvent (pointer_down_at 30 60) (Some 0) initial_ui))) = [False]"
  by code_simp

end
